theory Spec2Isabelle
  imports Main "HOL-Library.Multiset" "HOL-Library.AList"
begin

section \<open>Strings and paths\<close>

text \<open>
  The indexer (\<^verbatim>\<open>src/tools/indexer.ts\<close>) works on JavaScript strings. They are modelled
  as \<^typ>\<open>string\<close>, a list of code units restricted to the range of \<^typ>\<open>char\<close>;
  \<^verbatim>\<open>s.length\<close> is \<^const>\<open>length\<close> and \<^verbatim>\<open>s[i]\<close> beyond the end is the
  value \<^verbatim>\<open>undefined\<close>, which the code only ever compares with a character.
\<close>

definition backslash :: char where
  "backslash = CHR 0x5C"

definition dquote :: char where
  "dquote = CHR 0x22"

definition newline :: char where
  "newline = CHR 0x0A"

text \<open>\<^verbatim>\<open>value.replace(/\\/g, "/")\<close>\<close>

definition replaceBackslashes :: "string \<Rightarrow> string" where
  "replaceBackslashes v = map (\<lambda>c. if c = backslash then CHR ''/'' else c) v"

text \<open>\<^verbatim>\<open>.replace(/^\.\/+/, "")\<close>: a leading dot followed by one or more slashes is removed.\<close>

fun stripLeadingDotSlash :: "string \<Rightarrow> string" where
  "stripLeadingDotSlash (a # b # rest) =
     (if a = CHR ''.'' \<and> b = CHR ''/'' then dropWhile (\<lambda>c. c = CHR ''/'') rest
      else a # b # rest)"
| "stripLeadingDotSlash v = v"

text \<open>\<^verbatim>\<open>.replace(/\/+/g, "/")\<close>: every run of slashes becomes one slash.\<close>

fun collapseSlashes :: "string \<Rightarrow> string" where
  "collapseSlashes (a # b # rest) =
     (if a = CHR ''/'' \<and> b = CHR ''/'' then collapseSlashes (b # rest)
      else a # collapseSlashes (b # rest))"
| "collapseSlashes v = v"

definition normalizePath :: "string \<Rightarrow> string" where
  "normalizePath v = collapseSlashes (stripLeadingDotSlash (replaceBackslashes v))"

text \<open>
  \<^verbatim>\<open>s.split(sep)\<close> for a one-character separator: the empty string splits into one
  empty piece, and adjacent separators give empty pieces.
\<close>

primrec splitOn :: "char \<Rightarrow> string \<Rightarrow> string list" where
  "splitOn sep [] = [[]]"
| "splitOn sep (c # cs) =
     (if c = sep then [] # splitOn sep cs
      else (case splitOn sep cs of w # ws \<Rightarrow> (c # w) # ws | [] \<Rightarrow> [[c]]))"

text \<open>\<^verbatim>\<open>.split("/").filter(Boolean)\<close>: the non-empty path segments.\<close>

definition segments :: "string \<Rightarrow> string list" where
  "segments p = filter (\<lambda>s. s \<noteq> []) (splitOn (CHR ''/'') p)"

text \<open>\<^verbatim>\<open>xs.join(sep)\<close>\<close>

fun joinWith :: "string \<Rightarrow> string list \<Rightarrow> string" where
  "joinWith sep [] = []"
| "joinWith sep [x] = x"
| "joinWith sep (x # y # zs) = x @ sep @ joinWith sep (y # zs)"

text \<open>\<^verbatim>\<open>segments.slice(i).join("/")\<close>\<close>

definition suffixFrom :: "string list \<Rightarrow> nat \<Rightarrow> string" where
  "suffixFrom segs i = joinWith ''/'' (drop i segs)"

section \<open>Runtime library\<close>

text \<open>
  \<^verbatim>\<open>a.localeCompare(b)\<close> belongs to the JavaScript runtime, not to this repository: it
  is the collation of the locale the indexer runs in. The functions that call it take it
  as their first argument, \<open>collate\<close>, a function from two strings to an integer of
  which the sign counts.
\<close>

type_synonym collation = "string \<Rightarrow> string \<Rightarrow> int"

text \<open>
  One collation is the comparison of the two strings code unit by code unit, a proper
  prefix first. The examples run with it. The runtime's collation agrees with it on the
  strings that the edge sort compares (the letter e followed by decimal digits) and on
  the lower-case paths of the examples; it differs from it on letter case and on
  punctuation, and it may return 0 for two different strings.
\<close>

fun localeCompare :: "string \<Rightarrow> string \<Rightarrow> int" where
  "localeCompare [] [] = 0"
| "localeCompare [] (y # ys) = - 1"
| "localeCompare (x # xs) [] = 1"
| "localeCompare (x # xs) (y # ys) =
     (if (of_char x :: nat) < of_char y then - 1
      else if (of_char y :: nat) < of_char x then 1
      else localeCompare xs ys)"

text \<open>
  \<^verbatim>\<open>xs.sort(cmp)\<close>: a stable sort; an element stays in front of a later one unless
  the comparator puts it strictly after. The language fixes the result of the sort for a
  consistent comparator only, one that orders the strings in a total preorder; for such a
  comparator every stable sort returns the same list.
\<close>

fun insertBy :: "('a \<Rightarrow> 'a \<Rightarrow> int) \<Rightarrow> 'a \<Rightarrow> 'a list \<Rightarrow> 'a list" where
  "insertBy cmp x [] = [x]"
| "insertBy cmp x (y # ys) = (if cmp x y \<le> 0 then x # y # ys else y # insertBy cmp x ys)"

definition sortBy :: "('a \<Rightarrow> 'a \<Rightarrow> int) \<Rightarrow> 'a list \<Rightarrow> 'a list" where
  "sortBy cmp xs = foldr (insertBy cmp) xs []"

text \<open>
  A consistent comparator: every two elements are comparable, and the order is transitive.
\<close>

definition consistent :: "('a \<Rightarrow> 'a \<Rightarrow> int) \<Rightarrow> bool" where
  "consistent cmp \<longleftrightarrow>
     (\<forall>a b. cmp a b \<le> 0 \<or> cmp b a \<le> 0) \<and>
     (\<forall>a b c. cmp a b \<le> 0 \<and> cmp b c \<le> 0 \<longrightarrow> cmp a c \<le> 0)"

text \<open>The decimal digits of a number, as a template literal prints it.\<close>

fun decimal :: "nat \<Rightarrow> string" where
  "decimal n =
     (if n < 10 then [char_of (48 + n)] else decimal (n div 10) @ [char_of (48 + n mod 10)])"

text \<open>\<^verbatim>\<open>Set.prototype.add\<close> on a set that iterates in insertion order.\<close>

definition setAdd :: "'a \<Rightarrow> 'a list \<Rightarrow> 'a list" where
  "setAdd x xs = (if x \<in> set xs then xs else xs @ [x])"

text \<open>
  \<^verbatim>\<open>Map\<close> objects that are iterated are association lists in insertion order:
  \<^verbatim>\<open>set\<close> is \<^const>\<open>AList.update\<close> (an existing key keeps its place) and \<^verbatim>\<open>get\<close> is
  \<^const>\<open>map_of\<close>. \<^verbatim>\<open>new Map(entries)\<close> sets the entries from left to right.
\<close>

definition mapFromEntries :: "('k \<times> 'v) list \<Rightarrow> ('k \<rightharpoonup> 'v)" where
  "mapFromEntries entries = foldl (\<lambda>m (k, v). m(k \<mapsto> v)) Map.empty entries"

text \<open>
  \<^verbatim>\<open>symbolUsers[symbol] = users\<close> on an object literal. The one property name that an
  assignment does not store as an own property is \<^verbatim>\<open>__proto__\<close>: it replaces the
  prototype and leaves the own properties as they were.
\<close>

type_synonym jsRecord = "string \<rightharpoonup> string list"

definition setProp :: "jsRecord \<Rightarrow> string \<Rightarrow> string list \<Rightarrow> jsRecord" where
  "setProp obj k v = (if k = ''__proto__'' then obj else obj(k \<mapsto> v))"

section \<open>Comment stripper\<close>

text \<open>\<^verbatim>\<open>source[i + 1]\<close>: the next character, \<^verbatim>\<open>undefined\<close> at the end of the input.\<close>

definition nextChar :: "string \<Rightarrow> char option" where
  "nextChar rest = (case rest of [] \<Rightarrow> None | c # _ \<Rightarrow> Some c)"

text \<open>
  The \<^verbatim>\<open>while\<close> loop of \<^verbatim>\<open>stripComments\<close>. The four flags are the loop's four
  booleans, the list is the input from index \<open>i\<close> on, and the result is what the loop
  appends to \<^verbatim>\<open>out\<close> from there. The branches stand in the order of the source;
  \<^verbatim>\<open>i += 2\<close> drops the next character as well.
\<close>

fun stripFrom :: "bool \<Rightarrow> bool \<Rightarrow> bool \<Rightarrow> bool \<Rightarrow> string \<Rightarrow> string" where
  "stripFrom inString inLineComment inBlockComment escaped [] = []"
| "stripFrom inString inLineComment inBlockComment escaped (ch # rest) =
     (if inLineComment then
        (if ch = newline then newline # stripFrom inString False inBlockComment escaped rest
         else stripFrom inString inLineComment inBlockComment escaped rest)
      else if inBlockComment then
        (if ch = CHR ''*'' \<and> nextChar rest = Some (CHR ''/'')
         then stripFrom inString inLineComment False escaped (tl rest)
         else if ch = newline
         then newline # stripFrom inString inLineComment inBlockComment escaped rest
         else stripFrom inString inLineComment inBlockComment escaped rest)
      else if inString then
        ch # (if escaped then stripFrom inString inLineComment inBlockComment False rest
              else if ch = backslash
              then stripFrom inString inLineComment inBlockComment True rest
              else if ch = dquote
              then stripFrom False inLineComment inBlockComment escaped rest
              else stripFrom inString inLineComment inBlockComment escaped rest)
      else if ch = dquote then ch # stripFrom True inLineComment inBlockComment escaped rest
      else if ch = CHR ''/'' \<and> nextChar rest = Some (CHR ''/'')
      then stripFrom inString True inBlockComment escaped (tl rest)
      else if ch = CHR ''/'' \<and> nextChar rest = Some (CHR ''*'')
      then stripFrom inString inLineComment True escaped (tl rest)
      else ch # stripFrom inString inLineComment inBlockComment escaped rest)"

definition stripComments :: "string \<Rightarrow> string" where
  "stripComments source = stripFrom False False False False source"

section \<open>Regular expressions\<close>

text \<open>
  The declaration extractor is written with regular expression literals. Their syntax
  is the datatype \<open>regex\<close>; their meaning is the backtracking matcher of the language
  standard: a matcher takes a state and a continuation, and a pattern matches when the
  continuation of its last part succeeds. Character classes are predicates.
\<close>

datatype regex =
    Cls "char \<Rightarrow> bool"
  | WordBoundary
  | Eps
  | Seq regex regex
  | Alt regex regex
  | Star regex
  | Group nat regex

text \<open>
  A match state: the input from \<open>endIndex\<close> on, the character before it (none at the
  start of the input), and the captures. Group 0 is the whole match.
\<close>

record mstate =
  prevChar :: "char option"
  rest :: string
  endIndex :: nat
  captures :: "nat \<rightharpoonup> string"

type_synonym continuation = "mstate \<Rightarrow> mstate option"

type_synonym matcher = "mstate \<Rightarrow> continuation \<Rightarrow> mstate option"

text \<open>\<^verbatim>\<open>\w\<close>: \<^verbatim>\<open>[A-Za-z0-9_]\<close>.\<close>

definition isWordChar :: "char \<Rightarrow> bool" where
  "isWordChar c = (let n = (of_char c :: nat) in
     (48 \<le> n \<and> n \<le> 57) \<or> (65 \<le> n \<and> n \<le> 90) \<or> n = 95 \<or> (97 \<le> n \<and> n \<le> 122))"

text \<open>\<^verbatim>\<open>[A-Za-z_]\<close>\<close>

definition isIdentStart :: "char \<Rightarrow> bool" where
  "isIdentStart c = (let n = (of_char c :: nat) in
     (65 \<le> n \<and> n \<le> 90) \<or> n = 95 \<or> (97 \<le> n \<and> n \<le> 122))"

text \<open>
  \<^verbatim>\<open>\s\<close>, and what \<^verbatim>\<open>trim\<close> removes: tab, line feed, vertical tab, form feed,
  carriage return, space and no-break space (the white space below code unit 256).
\<close>

definition isSpace :: "char \<Rightarrow> bool" where
  "isSpace c = ((of_char c :: nat) \<in> {9, 10, 11, 12, 13, 32, 160})"

text \<open>The dot without the \<^verbatim>\<open>s\<close> flag: any character but a line terminator.\<close>

definition notLineTerminator :: "char \<Rightarrow> bool" where
  "notLineTerminator c = ((of_char c :: nat) \<notin> {10, 13})"

definition wordBefore :: "mstate \<Rightarrow> bool" where
  "wordBefore x = (case prevChar x of None \<Rightarrow> False | Some c \<Rightarrow> isWordChar c)"

definition wordAfter :: "mstate \<Rightarrow> bool" where
  "wordAfter x = (case rest x of [] \<Rightarrow> False | c # _ \<Rightarrow> isWordChar c)"

text \<open>
  The greedy star: one more round of \<open>m\<close> first, the continuation otherwise; a round that
  consumes nothing fails. Every round consumes a character, so the remaining input bounds
  the number of rounds; \<open>n\<close> is that bound. The standard clears the captures of the
  groups inside the star at the start of every round; that is left out, as the indexer
  reads no group that stands inside a star.
\<close>

primrec repeatMatcher :: "nat \<Rightarrow> matcher \<Rightarrow> matcher" where
  "repeatMatcher 0 m x k = k x"
| "repeatMatcher (Suc n) m x k =
     (case m x (\<lambda>y. if endIndex y = endIndex x then None else repeatMatcher n m y k) of
        Some r \<Rightarrow> Some r
      | None \<Rightarrow> k x)"

primrec rmatch :: "regex \<Rightarrow> matcher" where
  "rmatch (Cls P) x k =
     (case rest x of
        [] \<Rightarrow> None
      | c # cs \<Rightarrow>
          if P c then k (x\<lparr>prevChar := Some c, rest := cs, endIndex := endIndex x + 1\<rparr>)
          else None)"
| "rmatch WordBoundary x k = (if wordBefore x \<noteq> wordAfter x then k x else None)"
| "rmatch Eps x k = k x"
| "rmatch (Seq a b) x k = rmatch a x (\<lambda>y. rmatch b y k)"
| "rmatch (Alt a b) x k =
     (case rmatch a x k of Some r \<Rightarrow> Some r | None \<Rightarrow> rmatch b x k)"
| "rmatch (Star a) x k = repeatMatcher (length (rest x)) (rmatch a) x k"
| "rmatch (Group n a) x k =
     rmatch a x
       (\<lambda>y. k (y\<lparr>captures := (captures y)(n \<mapsto> take (endIndex y - endIndex x) (rest x))\<rparr>))"

definition chr :: "char \<Rightarrow> regex" where
  "chr c = Cls (\<lambda>d. d = c)"

definition seqs :: "regex list \<Rightarrow> regex" where
  "seqs rs = foldr Seq rs Eps"

definition lit :: "string \<Rightarrow> regex" where
  "lit w = seqs (map chr w)"

definition Plus :: "regex \<Rightarrow> regex" where
  "Plus r = Seq r (Star r)"

definition Opt :: "regex \<Rightarrow> regex" where
  "Opt r = Alt r Eps"

definition space :: regex where
  "space = Cls isSpace"

text \<open>One attempt at the position of \<open>x\<close>, with fresh captures.\<close>

definition execAt :: "regex \<Rightarrow> mstate \<Rightarrow> mstate option" where
  "execAt r x = rmatch (Group 0 r) (x\<lparr>captures := Map.empty\<rparr>) Some"

text \<open>
  \<^verbatim>\<open>pattern.exec(source)\<close> of a global pattern whose \<^verbatim>\<open>lastIndex\<close> is the position of
  \<open>x\<close>: the first position from there on, up to the end of the input, where an attempt
  succeeds. The result is the index of the match and the state at its end.
\<close>

fun firstMatch :: "regex \<Rightarrow> char option \<Rightarrow> string \<Rightarrow> nat \<Rightarrow> (nat \<times> mstate) option" where
  "firstMatch r b [] i =
     (case execAt r \<lparr>prevChar = b, rest = [], endIndex = i, captures = Map.empty\<rparr> of
        Some m \<Rightarrow> Some (i, m)
      | None \<Rightarrow> None)"
| "firstMatch r b (c # cs) i =
     (case execAt r \<lparr>prevChar = b, rest = c # cs, endIndex = i, captures = Map.empty\<rparr> of
        Some m \<Rightarrow> Some (i, m)
      | None \<Rightarrow> firstMatch r (Some c) cs (i + 1))"

definition exec :: "regex \<Rightarrow> mstate \<Rightarrow> (nat \<times> mstate) option" where
  "exec r x = firstMatch r (prevChar x) (rest x) (endIndex x)"

definition startOf :: "string \<Rightarrow> mstate" where
  "startOf s = \<lparr>prevChar = None, rest = s, endIndex = 0, captures = Map.empty\<rparr>"

subsection \<open>Invariants of the matcher\<close>

text \<open>
  The least number of characters a pattern consumes, and the relation between the state
  a matcher receives and the state it hands to its continuation: the position moves
  forward by at least \<open>n\<close>, and the remaining input is the old one without the consumed
  characters.
\<close>

primrec minLen :: "regex \<Rightarrow> nat" where
  "minLen (Cls P) = 1"
| "minLen WordBoundary = 0"
| "minLen Eps = 0"
| "minLen (Seq a b) = minLen a + minLen b"
| "minLen (Alt a b) = min (minLen a) (minLen b)"
| "minLen (Star a) = 0"
| "minLen (Group n a) = minLen a"

definition advances :: "mstate \<Rightarrow> mstate \<Rightarrow> nat \<Rightarrow> bool" where
  "advances x y n \<longleftrightarrow>
     endIndex x + n \<le> endIndex y \<and> endIndex y - endIndex x \<le> length (rest x) \<and>
     rest y = drop (endIndex y - endIndex x) (rest x)"

lemma advances_refl: "advances x x 0"
  by (simp add: advances_def)

lemma advances_trans: "advances x y m \<Longrightarrow> advances y z n \<Longrightarrow> advances x z (m + n)"
  by (auto simp: advances_def)

lemma advances_weaken: "advances x y m \<Longrightarrow> n \<le> m \<Longrightarrow> advances x y n"
  by (auto simp: advances_def)

lemma advances_captures: "advances x (y\<lparr>captures := c\<rparr>) n = advances x y n"
  by (simp add: advances_def)

lemma repeatMatcher_advances:
  assumes m: "\<And>x k z. m x k = Some z \<Longrightarrow> \<exists>y. k y = Some z \<and> advances x y 0"
  shows "repeatMatcher n m x k = Some z \<Longrightarrow> \<exists>y. k y = Some z \<and> advances x y 0"
proof (induction n arbitrary: x z)
  case 0
  then show ?case by (auto intro: advances_refl)
next
  case (Suc n)
  let ?k = "\<lambda>y. if endIndex y = endIndex x then None else repeatMatcher n m y k"
  show ?case
  proof (cases "m x ?k")
    case None
    with Suc.prems have "k x = Some z" by simp
    then show ?thesis by (auto intro: advances_refl)
  next
    case (Some r)
    with Suc.prems have "m x ?k = Some z" by simp
    from m[OF this] obtain y where y: "?k y = Some z" "advances x y 0" by blast
    then have "repeatMatcher n m y k = Some z" by (simp split: if_splits)
    from Suc.IH[OF this] obtain y' where "k y' = Some z" "advances y y' 0" by blast
    with y(2) show ?thesis using advances_trans[of x y 0 y' 0] by auto
  qed
qed

lemma rmatch_advances:
  "rmatch r x k = Some z \<Longrightarrow> \<exists>y. k y = Some z \<and> advances x y (minLen r)"
proof (induction r arbitrary: x k z)
  case (Cls P)
  then show ?case
    by (auto simp: advances_def split: list.splits if_splits intro!: exI)
next
  case WordBoundary
  then show ?case by (auto split: if_splits intro: advances_refl)
next
  case Eps
  then show ?case by (auto intro: advances_refl)
next
  case (Seq a b)
  from Seq.prems have "rmatch a x (\<lambda>y. rmatch b y k) = Some z" by simp
  from Seq.IH(1)[OF this] obtain y where y: "rmatch b y k = Some z" "advances x y (minLen a)"
    by blast
  from Seq.IH(2)[OF y(1)] obtain y' where "k y' = Some z" "advances y y' (minLen b)" by blast
  with y(2) show ?case using advances_trans by fastforce
next
  case (Alt a b)
  show ?case
  proof (cases "rmatch a x k")
    case None
    with Alt.prems have "rmatch b x k = Some z" by simp
    from Alt.IH(2)[OF this] show ?thesis
      by (auto intro: advances_weaken[OF _ min.cobounded2])
  next
    case (Some r)
    with Alt.prems have "rmatch a x k = Some z" by simp
    from Alt.IH(1)[OF this] show ?thesis
      by (auto intro: advances_weaken[OF _ min.cobounded1])
  qed
next
  case (Star a)
  have "\<And>x k z. rmatch a x k = Some z \<Longrightarrow> \<exists>y. k y = Some z \<and> advances x y 0"
    using Star.IH by (blast intro: advances_weaken)
  from repeatMatcher_advances[of "rmatch a", OF this] Star.prems show ?case by simp
next
  case (Group n a)
  from Group.prems Group.IH[of x _ z] show ?case
    by (fastforce simp: advances_captures)
qed

lemma execAt_advances: "execAt r x = Some m \<Longrightarrow> advances x m (minLen r)"
  unfolding execAt_def
  by (drule rmatch_advances) (auto simp: advances_def)

lemma firstMatch_bounds:
  "firstMatch r b s i = Some (j, m) \<Longrightarrow>
     i \<le> j \<and> j + minLen r \<le> endIndex m \<and> endIndex m + length (rest m) = i + length s"
proof (induction s arbitrary: b i)
  case Nil
  then show ?case
    by (auto split: option.splits dest!: execAt_advances simp: advances_def)
next
  case (Cons c cs)
  show ?case
  proof (cases "execAt r \<lparr>prevChar = b, rest = c # cs, endIndex = i, captures = Map.empty\<rparr>")
    case None
    with Cons.prems have "firstMatch r (Some c) cs (i + 1) = Some (j, m)" by simp
    from Cons.IH[OF this] show ?thesis by simp
  next
    case (Some m')
    with Cons.prems have "m' = m" "j = i" by auto
    with Some show ?thesis by (auto dest!: execAt_advances simp: advances_def)
  qed
qed

lemma exec_bounds:
  "exec r x = Some (j, m) \<Longrightarrow>
     endIndex x \<le> j \<and> j + minLen r \<le> endIndex m \<and>
     endIndex m + length (rest m) = endIndex x + length (rest x)"
  unfolding exec_def by (rule firstMatch_bounds)

subsection \<open>The loops over the matches\<close>

text \<open>
  \<^verbatim>\<open>let match = pattern.exec(source); while (match) { ...; match = pattern.exec(source); }\<close>:
  the end states of the successive matches. A match that ends where the search started
  leaves \<^verbatim>\<open>lastIndex\<close> where it was, and the loop never ends: that is \<^const>\<open>None\<close>.
\<close>

function matchLoop :: "regex \<Rightarrow> mstate \<Rightarrow> mstate list option" where
  "matchLoop r x =
     (case exec r x of
        None \<Rightarrow> Some []
      | Some (i, m) \<Rightarrow>
          if endIndex x < endIndex m then map_option ((#) m) (matchLoop r m) else None)"
  by pat_completeness auto
termination
  by (relation "measure (\<lambda>(r, x). length (rest x))") (auto dest!: exec_bounds)

text \<open>
  \<^verbatim>\<open>source.replace(pattern, replacement)\<close> for a global pattern and a replacement without
  group references: the text between the matches is kept; after an empty match the search
  moves one character on.
\<close>

function replaceLoop :: "regex \<Rightarrow> string \<Rightarrow> mstate \<Rightarrow> string" where
  "replaceLoop r replacement x =
     (case exec r x of
        None \<Rightarrow> rest x
      | Some (i, m) \<Rightarrow>
          take (i - endIndex x) (rest x) @ replacement @
          (if endIndex m = i
           then (case rest m of
                   [] \<Rightarrow> []
                 | c # cs \<Rightarrow>
                     c # replaceLoop r replacement
                           (m\<lparr>prevChar := Some c, rest := cs, endIndex := endIndex m + 1\<rparr>))
           else replaceLoop r replacement m))"
  by pat_completeness auto
termination
  by (relation "measure (\<lambda>(r, replacement, x). length (rest x))") (auto dest!: exec_bounds)

section \<open>Declaration extractor\<close>

text \<open>
  What could go wrong in the loops over the matches: a method call on a group that did not
  take part in the match (\<^verbatim>\<open>match[2].trim()\<close> on \<^verbatim>\<open>undefined\<close>), and a loop that never
  ends. Both are values, so that their absence is a statement.
\<close>

datatype failure = UndefinedGroup | NoTermination

text \<open>\<^verbatim>\<open>s.trim()\<close>\<close>

definition trim :: "string \<Rightarrow> string" where
  "trim s = rev (dropWhile isSpace (rev (dropWhile isSpace s)))"

text \<open>\<^verbatim>\<open>if (match[1])\<close>: a group is truthy when it took part and is not empty.\<close>

definition truthy :: "string option \<Rightarrow> bool" where
  "truthy v = (case v of None \<Rightarrow> False | Some s \<Rightarrow> s \<noteq> [])"

text \<open>
  \<^verbatim>\<open>/\b(export\s+)?import\s*\(\s*path\s*:\s*"([^"]+)"\s*,\s*version\s*:\s*"[^"]*"\s*\)\s*;/gms\<close>
\<close>

definition importPattern :: regex where
  "importPattern = seqs
     [WordBoundary, Opt (Group 1 (seqs [lit ''export'', Plus space])), lit ''import'', Star space,
      chr (CHR ''(''), Star space, lit ''path'', Star space, chr (CHR '':''), Star space,
      chr dquote, Group 2 (Plus (Cls (\<lambda>c. c \<noteq> dquote))), chr dquote, Star space,
      chr (CHR '',''), Star space, lit ''version'', Star space, chr (CHR '':''), Star space,
      chr dquote, Star (Cls (\<lambda>c. c \<noteq> dquote)), chr dquote, Star space, chr (CHR '')''),
      Star space, chr (CHR '';'')]"

text \<open>
  The body of the loop of \<^verbatim>\<open>parseImports\<close>. \<^verbatim>\<open>importSet\<close> and \<^verbatim>\<open>imports\<close> always
  hold the same strings, so one list stands for both (and likewise for the re-exports).
\<close>

definition importStep ::
  "string list \<times> string list \<Rightarrow> mstate \<Rightarrow> failure + string list \<times> string list" where
  "importStep acc m =
     (case captures m 2 of
        None \<Rightarrow> Inl UndefinedGroup
      | Some path \<Rightarrow>
          (let target = normalizePath (trim path)
           in if target \<noteq> []
              then (if truthy (captures m 1) then Inr (fst acc, setAdd target (snd acc))
                    else Inr (setAdd target (fst acc), snd acc))
              else Inr acc))"

fun foldFailure :: "('a \<Rightarrow> 'b \<Rightarrow> failure + 'a) \<Rightarrow> 'a \<Rightarrow> 'b list \<Rightarrow> failure + 'a" where
  "foldFailure f acc [] = Inr acc"
| "foldFailure f acc (x # xs) =
     (case f acc x of Inl e \<Rightarrow> Inl e | Inr acc' \<Rightarrow> foldFailure f acc' xs)"

definition parseImports :: "string \<Rightarrow> failure + string list \<times> string list" where
  "parseImports source =
     (case matchLoop importPattern (startOf source) of
        None \<Rightarrow> Inl NoTermination
      | Some ms \<Rightarrow> foldFailure importStep ([], []) ms)"

text \<open>
  \<^verbatim>\<open>/\bexport\s+(function|type|predicate|enum|const)\s+([A-Za-z_][A-Za-z0-9_]*)/g\<close>
\<close>

definition exportPattern :: regex where
  "exportPattern = seqs
     [WordBoundary, lit ''export'', Plus space,
      Group 1 (Alt (lit ''function'') (Alt (lit ''type'') (Alt (lit ''predicate'')
        (Alt (lit ''enum'') (lit ''const''))))),
      Plus space, Group 2 (Seq (Cls isIdentStart) (Star (Cls isWordChar)))]"

definition symbolStep :: "string list \<Rightarrow> mstate \<Rightarrow> failure + string list" where
  "symbolStep out m =
     (case captures m 2 of
        None \<Rightarrow> Inl UndefinedGroup
      | Some symbol \<Rightarrow> Inr (setAdd symbol out))"

definition parseExportedSymbols :: "string \<Rightarrow> failure + string list" where
  "parseExportedSymbols source =
     (case matchLoop exportPattern (startOf source) of
        None \<Rightarrow> Inl NoTermination
      | Some ms \<Rightarrow> foldFailure symbolStep [] ms)"

text \<open>\<^verbatim>\<open>/"([^"\\]|\\.)*"/g\<close> and \<^verbatim>\<open>/\b[A-Za-z_][A-Za-z0-9_]*\b/g\<close>\<close>

definition stringPattern :: regex where
  "stringPattern = seqs
     [chr dquote,
      Star (Group 1 (Alt (Cls (\<lambda>c. c \<noteq> dquote \<and> c \<noteq> backslash))
                         (Seq (chr backslash) (Cls notLineTerminator)))),
      chr dquote]"

definition identifierPattern :: regex where
  "identifierPattern = seqs [WordBoundary, Cls isIdentStart, Star (Cls isWordChar), WordBoundary]"

definition tokenStep :: "string set \<Rightarrow> mstate \<Rightarrow> failure + string set" where
  "tokenStep tokens m =
     (case captures m 0 of
        None \<Rightarrow> Inl UndefinedGroup
      | Some token \<Rightarrow> Inr (insert token tokens))"

definition extractIdentifierTokens :: "string \<Rightarrow> failure + string set" where
  "extractIdentifierTokens source =
     (let noStrings = replaceLoop stringPattern '' '' (startOf source)
      in case matchLoop identifierPattern (startOf noStrings) of
           None \<Rightarrow> Inl NoTermination
         | Some ms \<Rightarrow> foldFailure tokenStep {} ms)"

section \<open>Parsed files\<close>

text \<open>
  The interface \<^verbatim>\<open>ParsedFile\<close>. The fields \<^verbatim>\<open>loc\<close>, \<^verbatim>\<open>functionCount\<close> and
  \<^verbatim>\<open>isGenerated\<close> are display statistics that no operation below reads; they are left
  out. Field names carry the prefix \<open>pf_\<close> because record fields share one name space.
\<close>

record ParsedFile =
  pf_id :: string
  pf_filePath :: string
  pf_imports :: "string list"
  pf_reexports :: "string list"
  pf_exportedSymbols :: "string list"
  pf_tokens :: "string set"

section \<open>Path resolver\<close>

text \<open>
  \<^verbatim>\<open>Map<string, string[]>\<close>: \<^verbatim>\<open>get\<close> of an absent key is \<^verbatim>\<open>undefined\<close>, here
  \<^const>\<open>None\<close>.
\<close>

type_synonym suffixIndex = "string \<rightharpoonup> string list"

text \<open>
  The body of the inner loop of \<^verbatim>\<open>buildSuffixIndex\<close>:
  \<^verbatim>\<open>existing = index.get(suffix) ?? []; existing.push(record.id); index.set(suffix, existing)\<close>.
\<close>

definition registerSuffix :: "string \<Rightarrow> suffixIndex \<Rightarrow> string \<Rightarrow> suffixIndex" where
  "registerSuffix rid index suffix =
     index(suffix \<mapsto> (case index suffix of None \<Rightarrow> [] | Some existing \<Rightarrow> existing) @ [rid])"

text \<open>The suffixes the inner loop visits, for \<open>i\<close> from 0 to \<open>segments.length - 1\<close>.\<close>

definition suffixesOf :: "string \<Rightarrow> string list" where
  "suffixesOf fp = (let segs = segments fp in map (suffixFrom segs) [0..<length segs])"

definition indexRecord :: "suffixIndex \<Rightarrow> ParsedFile \<Rightarrow> suffixIndex" where
  "indexRecord index r = foldl (registerSuffix (pf_id r)) index (suffixesOf (pf_filePath r))"

definition buildSuffixIndex :: "ParsedFile list \<Rightarrow> suffixIndex" where
  "buildSuffixIndex records = foldl indexRecord Map.empty records"

text \<open>\<^verbatim>\<open>matches && matches.length === 1\<close>, then \<^verbatim>\<open>matches[0]\<close>.\<close>

definition uniqueMatch :: "suffixIndex \<Rightarrow> string \<Rightarrow> string option" where
  "uniqueMatch index s = (case index s of Some [t] \<Rightarrow> Some t | _ \<Rightarrow> None)"

text \<open>The \<^verbatim>\<open>for\<close> loop of \<^verbatim>\<open>resolveModuleTarget\<close> over the shorter suffixes.\<close>

fun firstUnique :: "suffixIndex \<Rightarrow> string list \<Rightarrow> string option" where
  "firstUnique index [] = None"
| "firstUnique index (s # ss) =
     (case uniqueMatch index s of Some t \<Rightarrow> Some t | None \<Rightarrow> firstUnique index ss)"

definition resolveModuleTarget :: "string \<Rightarrow> suffixIndex \<Rightarrow> string option" where
  "resolveModuleTarget modulePath index =
     (let normalized = normalizePath modulePath in
      case uniqueMatch index normalized of
        Some t \<Rightarrow> Some t
      | None \<Rightarrow>
          (let segs = segments normalized
           in firstUnique index (map (suffixFrom segs) [1..<length segs])))"

text \<open>
  The specification's reading of the index: the files that registered the string \<open>s\<close>,
  in file order, and the attempts of a resolution in the order they are made.
\<close>

definition registrants :: "ParsedFile list \<Rightarrow> string \<Rightarrow> string list" where
  "registrants records s =
     map pf_id (filter (\<lambda>r. s \<in> set (suffixesOf (pf_filePath r))) records)"

definition attempts :: "string \<Rightarrow> string list" where
  "attempts declared =
     (let normalized = normalizePath declared; segs = segments normalized
      in normalized # map (\<lambda>k. joinWith ''/'' (drop k segs)) [1..<length segs])"

section \<open>Graph data\<close>

datatype edgeKind = Import | Reexport

fun kindName :: "edgeKind \<Rightarrow> string" where
  "kindName Import = ''import''"
| "kindName Reexport = ''reexport''"

record EdgeData =
  e_id :: string
  e_source :: string
  e_target :: string
  e_kind :: edgeKind

text \<open>
  \<^verbatim>\<open>NodeData\<close> without \<^verbatim>\<open>label\<close>, \<^verbatim>\<open>sourceUrl\<close>, \<^verbatim>\<open>loc\<close>,
  \<^verbatim>\<open>functionCount\<close> and \<^verbatim>\<open>isGenerated\<close>, which are display data. The optional
  \<^verbatim>\<open>isVirtual\<close> is absent on the nodes of files; absent reads as false.
\<close>

record NodeData =
  n_id :: string
  n_filePath :: string
  n_modulePath :: string
  n_imports :: "string list"
  n_reexports :: "string list"
  n_importTargets :: "string list"
  n_reexportTargets :: "string list"
  n_importCount :: nat
  n_reexportCount :: nat
  n_exports :: "string list"
  n_exportCount :: nat
  n_symbolUsers :: jsRecord
  n_isVirtual :: bool

text \<open>\<^verbatim>\<open>GraphOutput.elements\<close>; \<^verbatim>\<open>root\<close> and the time stamp are left out.\<close>

record GraphOutput =
  g_nodes :: "NodeData list"
  g_edges :: "EdgeData list"

section \<open>Alias chooser\<close>

text \<open>The comparator of the sort in \<^verbatim>\<open>chooseModulePath\<close>, on entries (spelling, count).\<close>

definition aliasCompare :: "collation \<Rightarrow> string \<times> nat \<Rightarrow> string \<times> nat \<Rightarrow> int" where
  "aliasCompare collate a b =
     (if snd b \<noteq> snd a then int (snd b) - int (snd a)
      else if length (fst b) \<noteq> length (fst a) then int (length (fst b)) - int (length (fst a))
      else collate (fst a) (fst b))"

definition chooseModulePath ::
  "collation \<Rightarrow> (string \<times> nat) list option \<Rightarrow> string \<Rightarrow> string" where
  "chooseModulePath collate aliases fallback =
     (case aliases of
        None \<Rightarrow> fallback
      | Some m \<Rightarrow>
          (case sortBy (aliasCompare collate) m of
             [] \<Rightarrow> fallback
           | first # _ \<Rightarrow> fst first))"

section \<open>Graph builder\<close>

text \<open>The mutable locals of \<^verbatim>\<open>buildGraph\<close> that the first loop over the files updates.\<close>

record builder =
  b_edges :: "EdgeData list"
  b_edgeKeys :: "string set"
  b_edgeNumber :: nat
  b_virtualNodes :: "(string \<times> NodeData) list"
  b_aliasCounts :: "(string \<times> (string \<times> nat) list) list"
  b_directConsumersByTarget :: "(string \<times> string list) list"

definition emptyBuilder :: builder where
  "emptyBuilder = \<lparr>b_edges = [], b_edgeKeys = {}, b_edgeNumber = 0, b_virtualNodes = [],
     b_aliasCounts = [], b_directConsumersByTarget = []\<rparr>"

text \<open>The template literal \<^verbatim>\<open>`${kind}\u0000${file.id}\u0000${resolvedTarget}`\<close>.\<close>

definition edgeKey :: "edgeKind \<Rightarrow> string \<Rightarrow> string \<Rightarrow> string" where
  "edgeKey kind source target = kindName kind @ [CHR 0x00] @ source @ [CHR 0x00] @ target"

text \<open>\<^verbatim>\<open>resolveModuleTarget(targetModulePath, suffixIndex) ?? targetModulePath\<close>\<close>

definition resolvedTargetOf :: "suffixIndex \<Rightarrow> string \<Rightarrow> string" where
  "resolvedTargetOf index targetModulePath =
     (case resolveModuleTarget targetModulePath index of
        Some t \<Rightarrow> t
      | None \<Rightarrow> targetModulePath)"

definition virtualNode :: "string \<Rightarrow> string \<Rightarrow> NodeData" where
  "virtualNode resolvedTarget targetModulePath =
     \<lparr>n_id = resolvedTarget, n_filePath = ''(unresolved module)'',
      n_modulePath = targetModulePath, n_imports = [], n_reexports = [],
      n_importTargets = [], n_reexportTargets = [], n_importCount = 0, n_reexportCount = 0,
      n_exports = [], n_exportCount = 0, n_symbolUsers = Map.empty, n_isVirtual = True\<rparr>"

definition addEdge :: "edgeKind \<Rightarrow> string \<Rightarrow> string \<Rightarrow> builder \<Rightarrow> builder" where
  "addEdge kind source target b =
     (if edgeKey kind source target \<notin> b_edgeKeys b
      then b\<lparr>b_edgeKeys := insert (edgeKey kind source target) (b_edgeKeys b),
             b_edgeNumber := b_edgeNumber b + 1,
             b_edges := b_edges b @
               [\<lparr>e_id = ''e'' @ decimal (b_edgeNumber b + 1), e_source = source,
                 e_target = target, e_kind = kind\<rparr>]\<rparr>
      else b)"

definition addConsumer :: "string set \<Rightarrow> string \<Rightarrow> string \<Rightarrow> builder \<Rightarrow> builder" where
  "addConsumer parsedFileIds source target b =
     (if target \<in> parsedFileIds
      then b\<lparr>b_directConsumersByTarget :=
               AList.update target
                 (setAdd source
                    (case map_of (b_directConsumersByTarget b) target of
                       None \<Rightarrow> [] | Some consumers \<Rightarrow> consumers))
                 (b_directConsumersByTarget b)\<rparr>
      else b)"

definition addAlias :: "string \<Rightarrow> string \<Rightarrow> string \<Rightarrow> builder \<Rightarrow> builder" where
  "addAlias source target targetModulePath b =
     (if target \<noteq> targetModulePath \<and> target \<noteq> source
      then (let aliasMap = (case map_of (b_aliasCounts b) target of
                              None \<Rightarrow> [] | Some m \<Rightarrow> m)
            in b\<lparr>b_aliasCounts :=
                   AList.update target
                     (AList.update targetModulePath
                        ((case map_of aliasMap targetModulePath of
                            None \<Rightarrow> 0 | Some c \<Rightarrow> c) + 1)
                        aliasMap)
                     (b_aliasCounts b)\<rparr>)
      else b)"

definition addVirtual :: "string set \<Rightarrow> string \<Rightarrow> string \<Rightarrow> builder \<Rightarrow> builder" where
  "addVirtual parsedFileIds target targetModulePath b =
     (if target \<notin> parsedFileIds
      then b\<lparr>b_virtualNodes :=
               AList.update target (virtualNode target targetModulePath) (b_virtualNodes b)\<rparr>
      else b)"

text \<open>
  The body of the two inner loops of \<^verbatim>\<open>buildGraph\<close> (the one over \<^verbatim>\<open>file.imports\<close>
  and the one over \<^verbatim>\<open>file.reexports\<close> differ in the kind only).
\<close>

definition processDeclaration ::
  "suffixIndex \<Rightarrow> string set \<Rightarrow> ParsedFile \<Rightarrow> edgeKind \<Rightarrow> builder \<Rightarrow> string \<Rightarrow> builder" where
  "processDeclaration index parsedFileIds file kind b targetModulePath =
     (let resolvedTarget = resolvedTargetOf index targetModulePath
      in addVirtual parsedFileIds resolvedTarget targetModulePath
           (addAlias (pf_id file) resolvedTarget targetModulePath
              (addConsumer parsedFileIds (pf_id file) resolvedTarget
                 (addEdge kind (pf_id file) resolvedTarget b))))"

definition processFile :: "suffixIndex \<Rightarrow> string set \<Rightarrow> builder \<Rightarrow> ParsedFile \<Rightarrow> builder" where
  "processFile index parsedFileIds b file =
     foldl (processDeclaration index parsedFileIds file Reexport)
       (foldl (processDeclaration index parsedFileIds file Import) b (pf_imports file))
       (pf_reexports file)"

text \<open>
  \<^verbatim>\<open>targetsByFile\<close>: the resolved targets of a file's declarations, pushed in
  declaration order and stored under the file's id when its loops end.
\<close>

definition targetsByFile ::
  "suffixIndex \<Rightarrow> ParsedFile list \<Rightarrow> (string \<rightharpoonup> string list \<times> string list)" where
  "targetsByFile index files =
     mapFromEntries
       (map (\<lambda>file. (pf_id file,
                      (map (resolvedTargetOf index) (pf_imports file),
                       map (resolvedTargetOf index) (pf_reexports file)))) files)"

text \<open>The users of one exported symbol, and the loop over \<^verbatim>\<open>file.exportedSymbols\<close>.\<close>

definition usersOf ::
  "collation \<Rightarrow> (string \<rightharpoonup> ParsedFile) \<Rightarrow> string list \<Rightarrow> string \<Rightarrow> string list" where
  "usersOf collate parsedById directConsumers symbol =
     sortBy collate
       (filter (\<lambda>consumerId. case parsedById consumerId of
                                None \<Rightarrow> False
                              | Some consumer \<Rightarrow> symbol \<in> pf_tokens consumer)
          directConsumers)"

definition addSymbolUsers ::
  "collation \<Rightarrow> (string \<rightharpoonup> ParsedFile) \<Rightarrow> string list \<Rightarrow> jsRecord \<Rightarrow> string \<Rightarrow> jsRecord" where
  "addSymbolUsers collate parsedById directConsumers symbolUsers symbol =
     (let users = usersOf collate parsedById directConsumers symbol
      in if length users > 0 then setProp symbolUsers symbol users else symbolUsers)"

definition fileNode ::
  "collation \<Rightarrow> suffixIndex \<Rightarrow> ParsedFile list \<Rightarrow> builder \<Rightarrow> ParsedFile \<Rightarrow> NodeData" where
  "fileNode collate index files b file =
     (let targets = (case targetsByFile index files (pf_id file) of
                       None \<Rightarrow> ([], []) | Some t \<Rightarrow> t);
          directConsumers = (case map_of (b_directConsumersByTarget b) (pf_id file) of
                               None \<Rightarrow> [] | Some consumers \<Rightarrow> consumers);
          parsedById = mapFromEntries (map (\<lambda>f. (pf_id f, f)) files);
          symbolUsers = foldl (addSymbolUsers collate parsedById directConsumers) Map.empty
                          (pf_exportedSymbols file)
      in \<lparr>n_id = pf_id file, n_filePath = pf_filePath file,
          n_modulePath = chooseModulePath collate (map_of (b_aliasCounts b) (pf_id file))
                           (pf_filePath file),
          n_imports = pf_imports file, n_reexports = pf_reexports file,
          n_importTargets = fst targets, n_reexportTargets = snd targets,
          n_importCount = length (pf_imports file),
          n_reexportCount = length (pf_reexports file),
          n_exports = pf_exportedSymbols file,
          n_exportCount = length (pf_exportedSymbols file),
          n_symbolUsers = symbolUsers, n_isVirtual = False\<rparr>)"

text \<open>The loop over \<^verbatim>\<open>virtualNodes.values()\<close> that skips an id already among the nodes.\<close>

definition pushVirtual :: "NodeData list \<Rightarrow> NodeData \<Rightarrow> NodeData list" where
  "pushVirtual nodes v = (if \<not> list_ex (\<lambda>node. n_id node = n_id v) nodes then nodes @ [v] else nodes)"

text \<open>
  \<^verbatim>\<open>buildGraph\<close> from the parsed files on: the suffix index, the loop over the files'
  declarations, one node per file, the virtual nodes, and the two final sorts.
\<close>

definition assembleGraph :: "collation \<Rightarrow> ParsedFile list \<Rightarrow> GraphOutput" where
  "assembleGraph collate parsedFiles =
     (let suffixIndex = buildSuffixIndex parsedFiles;
          parsedFileIds = set (map pf_id parsedFiles);
          b = foldl (processFile suffixIndex parsedFileIds) emptyBuilder parsedFiles;
          nodes = foldl pushVirtual (map (fileNode collate suffixIndex parsedFiles b) parsedFiles)
                    (map snd (b_virtualNodes b))
      in \<lparr>g_nodes = sortBy (\<lambda>a b. collate (n_id a) (n_id b)) nodes,
          g_edges = sortBy (\<lambda>a b. collate (e_id a) (e_id b)) (b_edges b)\<rparr>)"

text \<open>
  \<^verbatim>\<open>toPosixRelative(root, filePath)\<close> normalizes \<^verbatim>\<open>path.relative(root, filePath)\<close>.
  The latter belongs to the runtime: it is the path of the file from the root on, as the
  operating system writes it, and it is what a file of the tree comes with.
\<close>

definition toPosixRelative :: "string \<Rightarrow> string" where
  "toPosixRelative relative = normalizePath relative"

text \<open>
  The body of the first loop of \<^verbatim>\<open>buildGraph\<close>, for a file given by its path relative
  to the root and its contents. The calls of \<^verbatim>\<open>countNonCommentLoc\<close> and
  \<^verbatim>\<open>countFunctionDeclarations\<close> fill the statistics that the record leaves out, and
  are left out with them.
\<close>

definition parseFile :: "string \<times> string \<Rightarrow> failure + ParsedFile" where
  "parseFile entry =
     (let stripped = stripComments (snd entry); filePath = toPosixRelative (fst entry)
      in case parseImports stripped of
           Inl e \<Rightarrow> Inl e
         | Inr parsedImports \<Rightarrow>
             (case parseExportedSymbols stripped of
                Inl e \<Rightarrow> Inl e
              | Inr symbols \<Rightarrow>
                  (case extractIdentifierTokens stripped of
                     Inl e \<Rightarrow> Inl e
                   | Inr tokens \<Rightarrow>
                       Inr \<lparr>pf_id = filePath, pf_filePath = filePath,
                            pf_imports = fst parsedImports, pf_reexports = snd parsedImports,
                            pf_exportedSymbols = symbols, pf_tokens = tokens\<rparr>)))"

fun parseFiles :: "(string \<times> string) list \<Rightarrow> failure + ParsedFile list" where
  "parseFiles [] = Inr []"
| "parseFiles (entry # entries) =
     (case parseFile entry of
        Inl e \<Rightarrow> Inl e
      | Inr file \<Rightarrow>
          (case parseFiles entries of Inl e \<Rightarrow> Inl e | Inr files \<Rightarrow> Inr (file # files)))"

text \<open>
  \<^verbatim>\<open>buildGraph\<close> on a tree given as the list of its source files, each with its path
  relative to the root and its contents, in the order \<^verbatim>\<open>collectFsFiles\<close> returns them.
\<close>

definition buildGraph :: "collation \<Rightarrow> (string \<times> string) list \<Rightarrow> failure + GraphOutput" where
  "buildGraph collate tree =
     (case parseFiles tree of Inl e \<Rightarrow> Inl e | Inr files \<Rightarrow> Inr (assembleGraph collate files))"

section \<open>Example inputs\<close>

text \<open>A parsed file whose id and path agree, as \<^verbatim>\<open>buildGraph\<close> makes them.\<close>

definition parsedFile ::
  "string \<Rightarrow> string list \<Rightarrow> string list \<Rightarrow> string list \<Rightarrow> string list \<Rightarrow> ParsedFile" where
  "parsedFile path imports reexports symbols tokens =
     \<lparr>pf_id = path, pf_filePath = path, pf_imports = imports, pf_reexports = reexports,
      pf_exportedSymbols = symbols, pf_tokens = set tokens\<rparr>"

definition tenImports :: "ParsedFile list" where
  "tenImports =
     [parsedFile ''app.fs''
        [''m0'', ''m1'', ''m2'', ''m3'', ''m4'', ''m5'', ''m6'', ''m7'', ''m8'', ''m9''] [] [] []]"

definition threeEdges :: "ParsedFile list" where
  "threeEdges =
     [parsedFile ''app.fs'' [''util.fs'', ''missing.fs''] [''util.fs''] [] [],
      parsedFile ''lib/util.fs'' [] [] [] []]"

definition twoTails :: "ParsedFile list" where
  "twoTails =
     [parsedFile ''a/b/c.ext'' [] [] [] [],
      parsedFile ''x/b/c.ext'' [''b/c.ext'', ''a/b/c.ext''] [] [] []]"

definition shadowedPath :: "ParsedFile list" where
  "shadowedPath =
     [parsedFile ''a/b/c.fs'' [''b/c.fs''] [] [] [],
      parsedFile ''b/c.fs'' [] [] [] []]"

definition unresolvedImport :: "ParsedFile list" where
  "unresolvedImport = [parsedFile ''app.ext'' [''missing/mod.ext''] [] [] []]"

definition importAndReexport :: "ParsedFile list" where
  "importAndReexport = [parsedFile ''app.fs'' [''x''] [''x''] [] []]"

definition twoVersions :: string where
  \<open>twoVersions = ''import(path:"x", version:"1"); import(path:"x", version:"2");''\<close>

definition importAndExport :: string where
  \<open>importAndExport = ''import(path:"x", version:"1"); export import(path:"x", version:"1");''\<close>

definition sameTarget :: "ParsedFile list" where
  "sameTarget =
     [parsedFile ''app.fs'' [''util.fs'', ''lib/util.fs''] [''util.fs''] [] [],
      parsedFile ''lib/util.fs'' [] [] [] []]"


text \<open>
  A tree of two files: the first imports a path that is the id of the second and that
  both files register, so that it does not resolve.
\<close>

definition shadowTree :: "(string \<times> string) list" where
  \<open>shadowTree = [(''a/b/c.fs'', ''import(path:"b/c.fs", version:"1");''), (''b/c.fs'', '''')]\<close>

text \<open>
  A tree of two empty files, as a system has it on which the backslash is a character of
  a file name: the file \<open>b.fs\<close> in the directory \<open>a\<close>, and the file whose name is
  \<open>a\<close>, a backslash and \<open>b.fs\<close>.
\<close>

definition collidingTree :: "(string \<times> string) list" where
  "collidingTree = [(''a/b.fs'', ''''), (''a'' @ [backslash] @ ''b.fs'', '''')]"

text \<open>
  A second collation, for an example in which the choice of the collation shows: the
  comparison by code units of the strings with their upper-case letters turned to lower
  case. Like the collation of the runtime, and unlike the comparison by code units, it
  puts \<open>a\<close> before \<open>B\<close>; on the two spellings of the example below it agrees with the
  collation of the runtime.
\<close>

definition lowerCase :: "char \<Rightarrow> char" where
  "lowerCase c =
     (let n = (of_char c :: nat) in if 65 \<le> n \<and> n \<le> 90 then char_of (n + 32) else c)"

definition caseBlind :: collation where
  "caseBlind a b = localeCompare (map lowerCase a) (map lowerCase b)"

text \<open>
  Two spellings of one file, each declared once and of one length; they differ in the
  case of their first letter.
\<close>

definition caseTie :: "ParsedFile list" where
  "caseTie =
     [parsedFile ''pkg/util.fs'' [] [] [] [],
      parsedFile ''x.fs'' [''B/util.fs''] [] [] [],
      parsedFile ''y.fs'' [''a/util.fs''] [] [] []]"

text \<open>
  Three spellings of one file, each declared once; two of them have the same length, and
  the one that comes first in every alphabetical order is declared last.
\<close>

definition aliasTie :: "ParsedFile list" where
  "aliasTie =
     [parsedFile ''a.fs'' [''util.fs'', ''y/util.fs''] [] [] [],
      parsedFile ''b.fs'' [''x/util.fs''] [] [] [],
      parsedFile ''pkg/util.fs'' [] [] [] []]"


section \<open>Vocabulary of the properties\<close>

definition declarations :: "ParsedFile list \<Rightarrow> (ParsedFile \<times> edgeKind \<times> string) list" where
  "declarations files =
     concat (map (\<lambda>f. map (\<lambda>p. (f, Import, p)) (pf_imports f) @
                        map (\<lambda>p. (f, Reexport, p)) (pf_reexports f)) files)"

definition declStep ::
  "suffixIndex \<Rightarrow> string set \<Rightarrow> builder \<Rightarrow> ParsedFile \<times> edgeKind \<times> string \<Rightarrow> builder" where
  "declStep index ids b d = (case d of (f, kind, p) \<Rightarrow> processDeclaration index ids f kind b p)"

definition declTriple ::
  "suffixIndex \<Rightarrow> ParsedFile \<times> edgeKind \<times> string \<Rightarrow> edgeKind \<times> string \<times> string" where
  "declTriple index d = (case d of (f, kind, p) \<Rightarrow> (kind, pf_id f, resolvedTargetOf index p))"

definition edgeTriple :: "EdgeData \<Rightarrow> edgeKind \<times> string \<times> string" where
  "edgeTriple e = (e_kind e, e_source e, e_target e)"

definition tripleKey :: "edgeKind \<times> string \<times> string \<Rightarrow> string" where
  "tripleKey t = (case t of (kind, source, target) \<Rightarrow> edgeKey kind source target)"

fun firstOccurrences :: "'a set \<Rightarrow> 'a list \<Rightarrow> 'a list" where
  "firstOccurrences seen [] = []"
| "firstOccurrences seen (x # xs) =
     (if x \<in> seen then firstOccurrences seen xs else x # firstOccurrences (insert x seen) xs)"

definition discoveredEdges :: "ParsedFile list \<Rightarrow> EdgeData list" where
  "discoveredEdges files =
     b_edges (foldl (processFile (buildSuffixIndex files) (set (map pf_id files)))
                emptyBuilder files)"

definition edgeKeyOf :: "EdgeData \<Rightarrow> string" where
  "edgeKeyOf e = edgeKey (e_kind e) (e_source e) (e_target e)"

definition edgeIds :: "nat \<Rightarrow> string list" where
  "edgeIds n = map (\<lambda>k. ''e'' @ decimal k) [1..<Suc n]"

definition edgesInv :: "builder \<Rightarrow> bool" where
  "edgesInv b \<longleftrightarrow>
     b_edgeNumber b = length (b_edges b) \<and>
     b_edgeKeys b = set (map edgeKeyOf (b_edges b)) \<and>
     map e_id (b_edges b) = edgeIds (length (b_edges b))"

definition nulFree :: "ParsedFile list \<Rightarrow> bool" where
  "nulFree files = list_all (\<lambda>f. CHR 0x00 \<notin> set (pf_id f)) files"

definition declTarget :: "suffixIndex \<Rightarrow> ParsedFile \<times> edgeKind \<times> string \<Rightarrow> string" where
  "declTarget index d = resolvedTargetOf index (snd (snd d))"

definition virtualInv :: "string set \<Rightarrow> (string \<times> NodeData) list \<Rightarrow> bool" where
  "virtualInv ids vs \<longleftrightarrow>
     distinct (map fst vs) \<and>
     (\<forall>k v. map_of vs k = Some v \<longrightarrow> k \<notin> ids \<and> v = virtualNode k k)"

definition virtualNodesOf :: "ParsedFile list \<Rightarrow> (string \<times> NodeData) list" where
  "virtualNodesOf files =
     b_virtualNodes (foldl (processFile (buildSuffixIndex files) (set (map pf_id files)))
                       emptyBuilder files)"

definition fileNodes :: "collation \<Rightarrow> ParsedFile list \<Rightarrow> NodeData list" where
  "fileNodes collate files =
     map (fileNode collate (buildSuffixIndex files) files
            (foldl (processFile (buildSuffixIndex files) (set (map pf_id files)))
               emptyBuilder files)) files"

definition consumersOf :: "(string \<times> string list) list \<Rightarrow> string \<Rightarrow> string list" where
  "consumersOf cs t = (case map_of cs t of None \<Rightarrow> [] | Some consumers \<Rightarrow> consumers)"

definition directConsumers :: "ParsedFile list \<Rightarrow> string \<Rightarrow> string list" where
  "directConsumers files t =
     consumersOf
       (b_directConsumersByTarget
          (foldl (processFile (buildSuffixIndex files) (set (map pf_id files))) emptyBuilder files))
       t"

definition aliasesOf :: "(string \<times> (string \<times> nat) list) list \<Rightarrow> string \<Rightarrow> (string \<times> nat) list" where
  "aliasesOf as t = (case map_of as t of None \<Rightarrow> [] | Some m \<Rightarrow> m)"

definition aliasCount :: "(string \<times> nat) list \<Rightarrow> string \<Rightarrow> nat" where
  "aliasCount m p = (case map_of m p of None \<Rightarrow> 0 | Some c \<Rightarrow> c)"

definition countsAlias :: "suffixIndex \<Rightarrow> string \<Rightarrow> string \<Rightarrow> ParsedFile \<times> edgeKind \<times> string \<Rightarrow> bool" where
  "countsAlias index t p d \<longleftrightarrow>
     declTarget index d = t \<and> snd (snd d) = p \<and> t \<noteq> p \<and> t \<noteq> pf_id (fst d)"

definition aliasInv :: "(string \<times> nat) list \<Rightarrow> bool" where
  "aliasInv m \<longleftrightarrow> distinct (map fst m) \<and> (\<forall>p c. map_of m p = Some c \<longrightarrow> 0 < c)"

definition observedAliases :: "ParsedFile list \<Rightarrow> string \<Rightarrow> (string \<times> nat) list" where
  "observedAliases files t =
     aliasesOf
       (b_aliasCounts
          (foldl (processFile (buildSuffixIndex files) (set (map pf_id files))) emptyBuilder files))
       t"

definition preferred :: "collation \<Rightarrow> string \<times> nat \<Rightarrow> string \<times> nat \<Rightarrow> bool" where
  "preferred collate a b \<longleftrightarrow>
     snd b < snd a \<or>
     (snd b = snd a \<and>
       (length (fst b) < length (fst a) \<or>
        (length (fst b) = length (fst a) \<and> collate (fst a) (fst b) \<le> 0)))"


text \<open>
  A relative path that normalization leaves as it is: no backslash, no leading \<open>./\<close>, no
  two slashes in a row. That is the form of a relative path on a system that separates
  with slashes, when no file name holds a backslash.
\<close>

fun singleSlashes :: "string \<Rightarrow> bool" where
  "singleSlashes (a # b # cs) = (\<not> (a = CHR ''/'' \<and> b = CHR ''/'') \<and> singleSlashes (b # cs))"
| "singleSlashes [a] = True"
| "singleSlashes [] = True"

definition plainPath :: "string \<Rightarrow> bool" where
  "plainPath p \<longleftrightarrow> backslash \<notin> set p \<and> take 2 p \<noteq> ''./'' \<and> singleSlashes p"

text \<open>The parsed files of a result of \<^const>\<open>parseFiles\<close>.\<close>

definition parsedOf :: "failure + ParsedFile list \<Rightarrow> ParsedFile list" where
  "parsedOf r = (case r of Inl e \<Rightarrow> [] | Inr files \<Rightarrow> files)"

text \<open>The node ids and the edge triples of a result of \<^verbatim>\<open>buildGraph\<close>.\<close>

definition nodeIds :: "failure + GraphOutput \<Rightarrow> failure + string list" where
  "nodeIds r = (case r of Inl e \<Rightarrow> Inl e | Inr g \<Rightarrow> Inr (map n_id (g_nodes g)))"

definition edgeTriples :: "failure + GraphOutput \<Rightarrow> failure + (edgeKind \<times> string \<times> string) list" where
  "edgeTriples r = (case r of Inl e \<Rightarrow> Inl e | Inr g \<Rightarrow> Inr (map edgeTriple (g_edges g)))"

text \<open>
  The groups that are set at the end of every match of a pattern: the groups outside
  every alternative and every star.
\<close>

primrec definite :: "regex \<Rightarrow> nat set" where
  "definite (Cls P) = {}"
| "definite WordBoundary = {}"
| "definite Eps = {}"
| "definite (Seq a b) = definite a \<union> definite b"
| "definite (Alt a b) = definite a \<inter> definite b"
| "definite (Star a) = {}"
| "definite (Group n a) = insert n (definite a)"

text \<open>
  From \<open>x\<close> to \<open>y\<close> no capture is lost, and the groups of \<open>G\<close> are set.
\<close>

definition keeps :: "mstate \<Rightarrow> mstate \<Rightarrow> nat set \<Rightarrow> bool" where
  "keeps x y G \<longleftrightarrow> (\<forall>g. g \<in> G \<or> captures x g \<noteq> None \<longrightarrow> captures y g \<noteq> None)"

text \<open>
  The lexical structure of a source text, as the stripper reads it: a sequence of pieces.
  A piece is code outside strings and comments, a string literal with its body, a line
  comment with its text up to the end of the line, a block comment with its body, or, at
  the end of the input only, a string or a block comment that is never closed.
\<close>

datatype piece =
    Code string
  | StringLit string
  | LineComment string
  | BlockComment string
  | OpenString string
  | OpenBlock string

text \<open>
  The text of a piece in the source.
\<close>

fun render :: "piece \<Rightarrow> string" where
  "render (Code c) = c"
| "render (StringLit body) = dquote # body @ [dquote]"
| "render (LineComment body) = ''//'' @ body"
| "render (BlockComment body) = ''/*'' @ body @ ''*/''"
| "render (OpenString body) = dquote # body"
| "render (OpenBlock body) = ''/*'' @ body"

text \<open>
  What is to be left of a piece: code and strings stay as they are, a line comment goes
  (its line break belongs to the next piece), and of a block comment the line breaks stay.
\<close>

fun expected :: "piece \<Rightarrow> string" where
  "expected (Code c) = c"
| "expected (StringLit body) = dquote # body @ [dquote]"
| "expected (LineComment body) = []"
| "expected (BlockComment body) = filter (\<lambda>c. c = newline) body"
| "expected (OpenString body) = dquote # body"
| "expected (OpenBlock body) = filter (\<lambda>c. c = newline) body"

text \<open>
  Code holds no quote and no comment opener.
\<close>

fun plainCode :: "string \<Rightarrow> bool" where
  "plainCode (a # b # cs) =
     (a \<noteq> dquote \<and> \<not> (a = CHR ''/'' \<and> (b = CHR ''/'' \<or> b = CHR ''*'')) \<and> plainCode (b # cs))"
| "plainCode [a] = (a \<noteq> dquote)"
| "plainCode [] = True"

text \<open>
  The body of a closed literal: a backslash takes the next character with it, and no
  other quote occurs.
\<close>

fun stringBody :: "string \<Rightarrow> bool" where
  "stringBody [] = True"
| "stringBody (c # cs) =
     (if c = backslash then (case cs of [] \<Rightarrow> False | _ # cs' \<Rightarrow> stringBody cs')
      else c \<noteq> dquote \<and> stringBody cs)"

text \<open>
  The body of a literal that the end of the input cuts off; it may end in a lone
  backslash.
\<close>

fun openBody :: "string \<Rightarrow> bool" where
  "openBody [] = True"
| "openBody (c # cs) =
     (if c = backslash then (case cs of [] \<Rightarrow> True | _ # cs' \<Rightarrow> openBody cs')
      else c \<noteq> dquote \<and> openBody cs)"

text \<open>
  The body of a block comment holds no \<^verbatim>\<open>*/\<close>.
\<close>

fun noClose :: "string \<Rightarrow> bool" where
  "noClose (a # b # cs) = (\<not> (a = CHR ''*'' \<and> b = CHR ''/'') \<and> noClose (b # cs))"
| "noClose [a] = True"
| "noClose [] = True"

text \<open>
  The pieces fit together: code that ends in a slash is not followed by a slash or a star
  (the two would open a comment), a line comment runs to the end of its line, and a piece
  that is never closed stands last.
\<close>

fun wellFormed :: "piece list \<Rightarrow> bool" where
  "wellFormed [] = True"
| "wellFormed (Code c # ps) =
     (plainCode c \<and>
      (c \<noteq> [] \<and> last c = CHR ''/'' \<longrightarrow>
         nextChar (concat (map render ps)) \<noteq> Some (CHR ''/'') \<and>
         nextChar (concat (map render ps)) \<noteq> Some (CHR ''*'')) \<and>
      wellFormed ps)"
| "wellFormed (StringLit body # ps) = (stringBody body \<and> wellFormed ps)"
| "wellFormed (LineComment body # ps) =
     (newline \<notin> set body \<and>
      (ps = [] \<or> nextChar (concat (map render ps)) = Some newline) \<and>
      wellFormed ps)"
| "wellFormed (BlockComment body # ps) = (noClose body \<and> wellFormed ps)"
| "wellFormed (OpenString body # ps) = (openBody body \<and> ps = [])"
| "wellFormed (OpenBlock body # ps) = (noClose body \<and> ps = [])"

text \<open>
  The words of a pattern, without regard to word boundaries and captures: every match
  consumes one of them.
\<close>

inductive_set star :: "string set \<Rightarrow> string set" for A :: "string set" where
  star_nil: "[] \<in> star A"
| star_step: "u \<in> A \<Longrightarrow> v \<in> star A \<Longrightarrow> u @ v \<in> star A"

primrec lang :: "regex \<Rightarrow> string set" where
  "lang (Cls P) = {[c] | c. P c}"
| "lang WordBoundary = {[]}"
| "lang Eps = {[]}"
| "lang (Seq a b) = {u @ v | u v. u \<in> lang a \<and> v \<in> lang b}"
| "lang (Alt a b) = lang a \<union> lang b"
| "lang (Star a) = star (lang a)"
| "lang (Group n a) = lang a"

text \<open>
  The pieces that are string literals, closed or not.
\<close>

fun isStringLit :: "piece \<Rightarrow> bool" where
  "isStringLit (StringLit body) = True"
| "isStringLit (OpenString body) = True"
| "isStringLit p = False"

text \<open>
  \<^verbatim>\<open>match.index\<close>: the end of the match less its length.
\<close>

definition matchStart :: "mstate \<Rightarrow> nat" where
  "matchStart m = (case captures m 0 of None \<Rightarrow> endIndex m | Some w \<Rightarrow> endIndex m - length w)"

text \<open>
  The body of a string literal that reads like an import declaration and holds both
  comment openers; its quotes are escaped.
\<close>

definition importLookalike :: string where
  "importLookalike =
     ''import(path: '' @ [backslash, dquote] @ ''x'' @ [backslash, dquote] @ '', version: '' @
     [backslash, dquote] @ ''1'' @ [backslash, dquote] @ ''); //not-a-comment /*not*/''"

text \<open>
  A source with that literal, a line comment and a block comment of two lines.
\<close>

definition commentSafety :: "piece list" where
  "commentSafety =
     [Code ''s = '', StringLit importLookalike, Code '';'', LineComment '' note'',
      Code [newline], BlockComment (''one'' @ [newline] @ ''two''), Code ''x'']"

text \<open>
  An import declaration, to stand before the literal.
\<close>

definition realImport :: string where
  \<open>realImport = ''import(path:"a", version:"1"); s = ''\<close>

text \<open>
  Three string literals with two names between them. Read without regard to the
  literals, the text from the word import in the first literal to the semicolon in the
  third is an import declaration of the path \<open>a\<close>.
\<close>

definition spanningLiterals :: "piece list" where
  "spanningLiterals =
     [StringLit ''import(path:'', Code '' a '', StringLit '', version:'', Code '' b '',
      StringLit '');'']"

section \<open>Properties of the path resolver\<close>

lemma splitOn_nonempty: "splitOn sep s \<noteq> []"
  by (induction s) (auto split: list.splits)

lemma splitOn_no_sep: "w \<in> set (splitOn sep s) \<Longrightarrow> sep \<notin> set w"
proof (induction s arbitrary: w)
  case Nil
  then show ?case by simp
next
  case (Cons c cs)
  then show ?case
    by (cases "splitOn sep cs") (auto split: if_splits simp: splitOn_nonempty)
qed

lemma segments_no_slash: "w \<in> set (segments p) \<Longrightarrow> CHR ''/'' \<notin> set w \<and> w \<noteq> []"
  by (auto simp: segments_def dest: splitOn_no_sep)

lemma count_joinWith:
  "\<forall>w \<in> set segs. CHR ''/'' \<notin> set w \<Longrightarrow> segs \<noteq> [] \<Longrightarrow>
   length (filter (\<lambda>c. c = CHR ''/'') (joinWith ''/'' segs)) = length segs - 1"
proof (induction segs)
  case Nil
  then show ?case by simp
next
  case (Cons x xs)
  have x: "filter (\<lambda>c. c = CHR ''/'') x = []"
    using Cons.prems(1) by (auto simp: filter_empty_conv)
  show ?case
  proof (cases xs)
    case Nil
    with x show ?thesis by simp
  next
    case (Cons y ys)
    with Cons.IH Cons.prems x show ?thesis by simp
  qed
qed

lemma suffixFrom_slashes:
  "\<forall>w \<in> set segs. CHR ''/'' \<notin> set w \<Longrightarrow> i < length segs \<Longrightarrow>
   length (filter (\<lambda>c. c = CHR ''/'') (suffixFrom segs i)) = length segs - i - 1"
  unfolding suffixFrom_def
  by (subst count_joinWith) (auto dest: in_set_dropD)

lemma suffixFrom_inj:
  assumes "\<forall>w \<in> set segs. CHR ''/'' \<notin> set w" "i < length segs" "j < length segs"
    "suffixFrom segs i = suffixFrom segs j"
  shows "i = j"
proof -
  have "length segs - i - 1 = length segs - j - 1"
    using suffixFrom_slashes[OF assms(1,2)] suffixFrom_slashes[OF assms(1,3)] assms(4) by simp
  with assms(2,3) show ?thesis by arith
qed

lemma distinct_suffixesOf: "distinct (suffixesOf fp)"
proof -
  have "inj_on (suffixFrom (segments fp)) (set [0..<length (segments fp)])"
    by (rule inj_onI) (use segments_no_slash in \<open>auto intro!: suffixFrom_inj[of "segments fp"]\<close>)
  then show ?thesis
    by (simp add: suffixesOf_def Let_def distinct_map)
qed

lemma registerSuffix_fold:
  "distinct keys \<Longrightarrow>
   foldl (registerSuffix rid) index keys s =
     (if s \<in> set keys then Some ((case index s of None \<Rightarrow> [] | Some e \<Rightarrow> e) @ [rid]) else index s)"
  by (induction keys arbitrary: index) (auto simp: registerSuffix_def)

lemma indexRecord_apply:
  "indexRecord index r s =
     (if s \<in> set (suffixesOf (pf_filePath r))
      then Some ((case index s of None \<Rightarrow> [] | Some e \<Rightarrow> e) @ [pf_id r]) else index s)"
  by (simp add: indexRecord_def registerSuffix_fold distinct_suffixesOf)

lemma foldl_indexRecord:
  "foldl indexRecord index records s =
     (if registrants records s = [] then index s
      else Some ((case index s of None \<Rightarrow> [] | Some e \<Rightarrow> e) @ registrants records s))"
  by (induction records arbitrary: index) (auto simp: registrants_def indexRecord_apply)

lemma buildSuffixIndex_apply:
  "buildSuffixIndex records s =
     (if registrants records s = [] then None else Some (registrants records s))"
  by (simp add: buildSuffixIndex_def foldl_indexRecord)

lemma uniqueMatch_build:
  "uniqueMatch (buildSuffixIndex records) s =
     (case registrants records s of [t] \<Rightarrow> Some t | _ \<Rightarrow> None)"
  by (auto simp: uniqueMatch_def buildSuffixIndex_apply split: list.splits)

lemma firstUnique_find:
  "firstUnique (buildSuffixIndex records) ss =
     (case find (\<lambda>s. length (registrants records s) = 1) ss of
        None \<Rightarrow> None | Some s \<Rightarrow> Some (hd (registrants records s)))"
  by (induction ss) (auto simp: uniqueMatch_build split: list.splits)

lemma resolve_attempts:
  "resolveModuleTarget declared (buildSuffixIndex records) =
     (case find (\<lambda>s. length (registrants records s) = 1) (attempts declared) of
        None \<Rightarrow> None | Some s \<Rightarrow> Some (hd (registrants records s)))"
  unfolding resolveModuleTarget_def attempts_def Let_def suffixFrom_def[abs_def, symmetric]
  by (auto simp: uniqueMatch_build firstUnique_find suffixFrom_def[abs_def] split: list.splits option.splits)

section \<open>Properties of the comparison and the sort\<close>

lemma localeCompare_range: "localeCompare a b \<in> {- 1, 0, 1}"
  by (induction a b rule: localeCompare.induct) auto

lemma localeCompare_antisym: "localeCompare b a = - localeCompare a b"
  by (induction a b rule: localeCompare.induct) auto

lemma localeCompare_eq: "localeCompare a b = 0 \<longleftrightarrow> a = b"
  by (induction a b rule: localeCompare.induct) auto

lemma localeCompare_total: "localeCompare a b \<le> 0 \<or> localeCompare b a \<le> 0"
  using localeCompare_antisym[of a b] by linarith

lemma localeCompare_trans:
  "localeCompare a b \<le> 0 \<Longrightarrow> localeCompare b c \<le> 0 \<Longrightarrow> localeCompare a c \<le> 0"
proof (induction a b arbitrary: c rule: localeCompare.induct)
  case 1
  then show ?case by simp
next
  case (2 y ys)
  then show ?case by (cases c) auto
next
  case (3 x xs)
  then show ?case by simp
next
  case (4 x xs y ys)
  show ?case
  proof (cases c)
    case Nil
    with 4 show ?thesis by simp
  next
    case (Cons z zs)
    show ?thesis
    proof (cases "(of_char x :: nat) < of_char y")
      case True
      with 4(2,3) Cons show ?thesis by (auto split: if_splits)
    next
      case False
      with 4(2) have eq: "(of_char x :: nat) = of_char y" "localeCompare xs ys \<le> 0"
        by (simp_all split: if_splits)
      with 4(3) Cons have "(of_char y :: nat) < of_char z \<or> ((of_char y :: nat) = of_char z \<and> localeCompare ys zs \<le> 0)"
        by (simp split: if_splits)
      then show ?thesis
      proof
        assume "(of_char y :: nat) < of_char z"
        with eq Cons show ?thesis by auto
      next
        assume a: "(of_char y :: nat) = of_char z \<and> localeCompare ys zs \<le> 0"
        with 4(1)[of zs] False eq have "localeCompare xs zs \<le> 0" by simp
        with a eq Cons show ?thesis by auto
      qed
    qed
  qed
qed

lemma mset_insertBy: "mset (insertBy cmp x xs) = add_mset x (mset xs)"
  by (induction xs) auto

lemma mset_sortBy: "mset (sortBy cmp xs) = mset xs"
  unfolding sortBy_def by (induction xs) (auto simp: mset_insertBy)

lemma set_sortBy: "set (sortBy cmp xs) = set xs"
  using mset_sortBy[of cmp xs] by (metis set_mset_mset)

lemma length_sortBy: "length (sortBy cmp xs) = length xs"
  using mset_sortBy[of cmp xs] by (metis size_mset)

lemma distinct_map_sortBy: "distinct (map f (sortBy cmp xs)) = distinct (map f xs)"
proof -
  have "mset (map f (sortBy cmp xs)) = mset (map f xs)"
    by (simp add: mset_sortBy)
  then show ?thesis by (rule mset_eq_imp_distinct_iff)
qed

lemma set_insertBy: "set (insertBy cmp x xs) = insert x (set xs)"
  by (induction xs) auto

lemma sorted_insertBy:
  assumes total: "\<And>a b. cmp a b \<le> 0 \<or> cmp b a \<le> 0"
    and trans: "\<And>a b c. cmp a b \<le> 0 \<Longrightarrow> cmp b c \<le> 0 \<Longrightarrow> cmp a c \<le> 0"
  shows "sorted_wrt (\<lambda>a b. cmp a b \<le> 0) xs \<Longrightarrow> sorted_wrt (\<lambda>a b. cmp a b \<le> 0) (insertBy cmp x xs)"
proof (induction xs)
  case Nil
  then show ?case by simp
next
  case (Cons y ys)
  show ?case
  proof (cases "cmp x y \<le> 0")
    case True
    with Cons.prems trans show ?thesis by auto
  next
    case False
    with total[of x y] have "cmp y x \<le> 0" by simp
    with False Cons show ?thesis by (auto simp: set_insertBy)
  qed
qed

lemma sorted_sortBy:
  assumes total: "\<And>a b. cmp a b \<le> 0 \<or> cmp b a \<le> 0"
    and trans: "\<And>a b c. cmp a b \<le> 0 \<Longrightarrow> cmp b c \<le> 0 \<Longrightarrow> cmp a c \<le> 0"
  shows "sorted_wrt (\<lambda>a b. cmp a b \<le> 0) (sortBy cmp xs)"
  unfolding sortBy_def
  by (induction xs) (auto intro: sorted_insertBy[OF total trans])

lemma insertBy_sorted: "\<forall>y \<in> set xs. cmp x y \<le> 0 \<Longrightarrow> insertBy cmp x xs = x # xs"
  by (cases xs) auto

lemma sortBy_sorted: "sorted_wrt (\<lambda>a b. cmp a b \<le> 0) xs \<Longrightarrow> sortBy cmp xs = xs"
  unfolding sortBy_def by (induction xs) (auto simp: insertBy_sorted)

lemma sortBy_Nil_iff: "sortBy cmp xs = [] \<longleftrightarrow> xs = []"
  using length_sortBy[of cmp xs] by (metis length_0_conv)

lemma consistent_total: "consistent cmp \<Longrightarrow> cmp a b \<le> 0 \<or> cmp b a \<le> 0"
  unfolding consistent_def by blast

lemma consistent_trans: "consistent cmp \<Longrightarrow> cmp a b \<le> 0 \<Longrightarrow> cmp b c \<le> 0 \<Longrightarrow> cmp a c \<le> 0"
  unfolding consistent_def by blast

lemma consistent_refl: "consistent cmp \<Longrightarrow> cmp a a \<le> 0"
  using consistent_total[of cmp a a] by simp

lemma localeCompare_consistent: "consistent localeCompare"
  unfolding consistent_def using localeCompare_total localeCompare_trans by blast

lemma consistent_on: "consistent cmp \<Longrightarrow> consistent (\<lambda>a b. cmp (f a) (f b))"
  unfolding consistent_def by blast

lemma caseBlind_consistent: "consistent caseBlind"
  unfolding consistent_def caseBlind_def using localeCompare_total localeCompare_trans by blast

lemma insertBy_cong:
  "\<forall>y \<in> set ys. (f x y \<le> 0) = (g x y \<le> 0) \<Longrightarrow> insertBy f x ys = insertBy g x ys"
  by (induction ys) auto

lemma sortBy_cong:
  "\<forall>a \<in> set xs. \<forall>b \<in> set xs. (f a b \<le> 0) = (g a b \<le> 0) \<Longrightarrow> sortBy f xs = sortBy g xs"
proof (induction xs)
  case Nil
  then show ?case by (simp add: sortBy_def)
next
  case (Cons x xs)
  then have ih: "sortBy f xs = sortBy g xs" by simp
  have "insertBy f x (sortBy g xs) = insertBy g x (sortBy g xs)"
    using Cons.prems by (intro insertBy_cong) (simp add: set_sortBy)
  with ih show ?case by (simp add: sortBy_def)
qed

lemma sorted_sortBy_consistent:
  "consistent cmp \<Longrightarrow> sorted_wrt (\<lambda>a b. cmp (f a) (f b) \<le> 0) (sortBy (\<lambda>a b. cmp (f a) (f b)) xs)"
  by (rule sorted_sortBy) (auto dest: consistent_total consistent_trans)

section \<open>Properties of the graph builder\<close>

declare decimal.simps [simp del]

lemma declarations_Cons:
  "declarations (f # fs) =
     map (\<lambda>p. (f, Import, p)) (pf_imports f) @ map (\<lambda>p. (f, Reexport, p)) (pf_reexports f) @
     declarations fs"
  by (simp add: declarations_def)

lemma foldl_map_step: "foldl g a (map h xs) = foldl (\<lambda>a x. g a (h x)) a xs"
  by (induction xs arbitrary: a) auto

lemma processFile_flat:
  "foldl (processFile index ids) b files = foldl (declStep index ids) b (declarations files)"
proof (induction files arbitrary: b)
  case Nil
  then show ?case by (simp add: declarations_def)
next
  case (Cons f fs)
  have "processFile index ids b f =
          foldl (declStep index ids) b
            (map (\<lambda>p. (f, Import, p)) (pf_imports f) @ map (\<lambda>p. (f, Reexport, p)) (pf_reexports f))"
    by (simp add: processFile_def foldl_map_step declStep_def)
  with Cons.IH show ?case by (simp add: declarations_Cons)
qed

subsection \<open>Edges\<close>

lemma firstOccurrences_set: "set (firstOccurrences seen xs) = set xs - seen"
  by (induction xs arbitrary: seen) auto

lemma firstOccurrences_distinct: "distinct (firstOccurrences seen xs)"
  by (induction xs arbitrary: seen) (auto simp: firstOccurrences_set)

lemma firstOccurrences_append:
  "firstOccurrences seen (xs @ ys) =
     firstOccurrences seen xs @ firstOccurrences (seen \<union> set xs) ys"
  by (induction xs arbitrary: seen) (auto simp: insert_absorb)

lemma firstOccurrences_map:
  "inj_on f (seen \<union> set xs) \<Longrightarrow>
   firstOccurrences (f ` seen) (map f xs) = map f (firstOccurrences seen xs)"
proof (induction xs arbitrary: seen)
  case Nil
  then show ?case by simp
next
  case (Cons x xs)
  have mem: "f x \<in> f ` seen \<longleftrightarrow> x \<in> seen"
    using Cons.prems by (auto simp: inj_on_def)
  have "inj_on f (insert x seen \<union> set xs)" "inj_on f (seen \<union> set xs)"
    using Cons.prems by (auto simp: inj_on_def)
  with Cons.IH[of seen] Cons.IH[of "insert x seen"] mem show ?case by simp
qed

lemma edgeIds_Suc: "edgeIds (Suc n) = edgeIds n @ [''e'' @ decimal (Suc n)]"
  by (simp add: edgeIds_def)

lemma edgesInv_empty: "edgesInv emptyBuilder"
  by (simp add: edgesInv_def emptyBuilder_def edgeIds_def)

lemma declStep_edges:
  "b_edges (declStep index ids b (f, kind, p)) =
     b_edges (addEdge kind (pf_id f) (resolvedTargetOf index p) b)"
  "b_edgeKeys (declStep index ids b (f, kind, p)) =
     b_edgeKeys (addEdge kind (pf_id f) (resolvedTargetOf index p) b)"
  "b_edgeNumber (declStep index ids b (f, kind, p)) =
     b_edgeNumber (addEdge kind (pf_id f) (resolvedTargetOf index p) b)"
  by (simp_all add: declStep_def processDeclaration_def Let_def addVirtual_def addAlias_def
      addConsumer_def)

lemma addEdge_inv: "edgesInv b \<Longrightarrow> edgesInv (addEdge kind s t b)"
  by (auto simp: edgesInv_def addEdge_def edgeKeyOf_def edgeIds_Suc)

lemma addEdge_keys:
  "edgesInv b \<Longrightarrow> b_edgeKeys (addEdge kind s t b) = insert (edgeKey kind s t) (b_edgeKeys b)"
  by (auto simp: addEdge_def)

lemma addEdge_keyList:
  "map edgeKeyOf (b_edges (addEdge kind s t b)) =
     map edgeKeyOf (b_edges b) @ firstOccurrences (b_edgeKeys b) [edgeKey kind s t]"
  by (auto simp: addEdge_def edgeKeyOf_def)

lemma addEdge_triples:
  "map edgeTriple (b_edges (addEdge kind s t b)) =
     map edgeTriple (b_edges b) @
       (if edgeKey kind s t \<in> b_edgeKeys b then [] else [(kind, s, t)])"
  by (auto simp: addEdge_def edgeTriple_def)

lemma declStep_edgesInv:
  assumes "edgesInv b"
  shows "edgesInv (declStep index ids b d)"
    and "b_edgeKeys (declStep index ids b d) =
           insert (tripleKey (declTriple index d)) (b_edgeKeys b)"
    and "map edgeKeyOf (b_edges (declStep index ids b d)) =
           map edgeKeyOf (b_edges b) @
             firstOccurrences (b_edgeKeys b) [tripleKey (declTriple index d)]"
    and "map edgeTriple (b_edges (declStep index ids b d)) =
           map edgeTriple (b_edges b) @
             (if tripleKey (declTriple index d) \<in> b_edgeKeys b then [] else [declTriple index d])"
proof -
  obtain f kind p where d: "d = (f, kind, p)" by (cases d) auto
  have t: "declTriple index d = (kind, pf_id f, resolvedTargetOf index p)"
    by (simp add: d declTriple_def)
  show "edgesInv (declStep index ids b d)"
    using addEdge_inv[OF assms, of kind "pf_id f" "resolvedTargetOf index p"]
    by (simp add: d edgesInv_def declStep_edges)
  show "b_edgeKeys (declStep index ids b d) =
           insert (tripleKey (declTriple index d)) (b_edgeKeys b)"
    by (simp add: declTriple_def tripleKey_def d declStep_edges addEdge_keys[OF assms])
  show "map edgeKeyOf (b_edges (declStep index ids b d)) =
           map edgeKeyOf (b_edges b) @
             firstOccurrences (b_edgeKeys b) [tripleKey (declTriple index d)]"
    by (simp add: declTriple_def tripleKey_def d declStep_edges addEdge_keyList)
  show "map edgeTriple (b_edges (declStep index ids b d)) =
           map edgeTriple (b_edges b) @
             (if tripleKey (declTriple index d) \<in> b_edgeKeys b then [] else [declTriple index d])"
    by (simp add: declTriple_def tripleKey_def d declStep_edges addEdge_triples)
qed

lemma foldl_declStep_edges:
  "edgesInv b \<Longrightarrow>
   edgesInv (foldl (declStep index ids) b ds) \<and>
   map edgeKeyOf (b_edges (foldl (declStep index ids) b ds)) =
     map edgeKeyOf (b_edges b) @
       firstOccurrences (b_edgeKeys b) (map (\<lambda>d. tripleKey (declTriple index d)) ds) \<and>
   set (map edgeTriple (b_edges (foldl (declStep index ids) b ds))) \<subseteq>
     set (map edgeTriple (b_edges b)) \<union> set (map (declTriple index) ds)"
proof (induction ds arbitrary: b)
  case Nil
  then show ?case by simp
next
  case (Cons d ds)
  let ?b = "declStep index ids b d"
  let ?k = "tripleKey (declTriple index d)"
  note step = declStep_edgesInv[OF Cons.prems, of index ids d]
  note ih = Cons.IH[OF step(1)]
  have inv: "edgesInv (foldl (declStep index ids) b (d # ds))"
    using ih by simp
  have keys: "map edgeKeyOf (b_edges (foldl (declStep index ids) b (d # ds))) =
     map edgeKeyOf (b_edges b) @
       firstOccurrences (b_edgeKeys b) (map (\<lambda>d. tripleKey (declTriple index d)) (d # ds))"
  proof (cases "?k \<in> b_edgeKeys b")
    case True
    then have "insert ?k (b_edgeKeys b) = b_edgeKeys b" by auto
    with ih step(2,3) True show ?thesis by simp
  next
    case False
    with ih step(2,3) show ?thesis by simp
  qed
  have sub: "set (map edgeTriple (b_edges (foldl (declStep index ids) b (d # ds)))) \<subseteq>
     set (map edgeTriple (b_edges b)) \<union> set (map (declTriple index) (d # ds))"
  proof -
    have A: "set (map edgeTriple (b_edges ?b)) \<subseteq>
            set (map edgeTriple (b_edges b)) \<union> {declTriple index d}"
      unfolding step(4) by auto
    have B: "set (map edgeTriple (b_edges (foldl (declStep index ids) ?b ds))) \<subseteq>
            set (map edgeTriple (b_edges ?b)) \<union> set (map (declTriple index) ds)"
      using ih by blast
    from A B show ?thesis
      by (simp only: foldl_Cons list.map list.set) blast
  qed
  from inv keys sub show ?case by blast
qed

lemma discoveredEdges_keys:
  "map e_id (discoveredEdges files) = edgeIds (length (discoveredEdges files)) \<and>
   map edgeKeyOf (discoveredEdges files) =
     firstOccurrences {}
       (map (\<lambda>d. tripleKey (declTriple (buildSuffixIndex files) d)) (declarations files)) \<and>
   set (map edgeTriple (discoveredEdges files)) \<subseteq>
     set (map (declTriple (buildSuffixIndex files)) (declarations files))"
  using foldl_declStep_edges[OF edgesInv_empty,
      of "buildSuffixIndex files" "set (map pf_id files)" "declarations files"]
  by (simp add: discoveredEdges_def processFile_flat edgesInv_def emptyBuilder_def)

lemma kindName_inj: "kindName k = kindName k' \<Longrightarrow> k = k'"
  by (cases k; cases k') simp_all

lemma kindName_no_nul: "CHR 0x00 \<notin> set (kindName k)"
  by (cases k) simp_all

lemma split_at_first:
  assumes "x \<notin> set a" "x \<notin> set a'" "a @ x # b = a' @ x # b'"
  shows "a = a' \<and> b = b'"
  using assms
proof (induction a arbitrary: a')
  case Nil
  then show ?case by (cases a') auto
next
  case (Cons c cs)
  then show ?case by (cases a') auto
qed

lemma edgeKey_inj:
  assumes "CHR 0x00 \<notin> set s" "CHR 0x00 \<notin> set s'" "edgeKey k s t = edgeKey k' s' t'"
  shows "k = k' \<and> s = s' \<and> t = t'"
proof -
  from assms(3) have "kindName k @ CHR 0x00 # (s @ CHR 0x00 # t) =
                      kindName k' @ CHR 0x00 # (s' @ CHR 0x00 # t')"
    by (simp add: edgeKey_def)
  from split_at_first[OF kindName_no_nul kindName_no_nul this]
  have k: "kindName k = kindName k'" and r: "s @ CHR 0x00 # t = s' @ CHR 0x00 # t'"
    by simp_all
  from split_at_first[OF assms(1,2) r] kindName_inj[OF k] show ?thesis by simp
qed

lemma declarations_mem:
  "(f, kind, p) \<in> set (declarations files) \<longleftrightarrow>
     f \<in> set files \<and> (kind = Import \<and> p \<in> set (pf_imports f) \<or>
                       kind = Reexport \<and> p \<in> set (pf_reexports f))"
  by (auto simp: declarations_def)

lemma tripleKey_inj_on:
  assumes "nulFree files"
  shows "inj_on tripleKey (set (map (declTriple index) (declarations files)))"
proof (rule inj_onI)
  fix x y
  assume x: "x \<in> set (map (declTriple index) (declarations files))"
    and y: "y \<in> set (map (declTriple index) (declarations files))"
    and eq: "tripleKey x = tripleKey y"
  from x obtain f k p where f: "f \<in> set files" "x = (k, pf_id f, resolvedTargetOf index p)"
    by (auto simp: declTriple_def declarations_mem)
  from y obtain f' k' p' where f': "f' \<in> set files" "y = (k', pf_id f', resolvedTargetOf index p')"
    by (auto simp: declTriple_def declarations_mem)
  from assms f(1) f'(1) have "CHR 0x00 \<notin> set (pf_id f)" "CHR 0x00 \<notin> set (pf_id f')"
    by (auto simp: nulFree_def list_all_iff)
  from edgeKey_inj[OF this] eq f(2) f'(2) show "x = y"
    by (auto simp: tripleKey_def)
qed

lemma edgeKeyOf_triple: "edgeKeyOf e = tripleKey (edgeTriple e)"
  by (simp add: edgeKeyOf_def tripleKey_def edgeTriple_def)

lemma discoveredEdges_triples:
  assumes "nulFree files"
  shows "map edgeTriple (discoveredEdges files) =
           firstOccurrences {} (map (declTriple (buildSuffixIndex files)) (declarations files))"
proof -
  let ?ts = "map (declTriple (buildSuffixIndex files)) (declarations files)"
  let ?es = "map edgeTriple (discoveredEdges files)"
  note inj = tripleKey_inj_on[OF assms, of "buildSuffixIndex files"]
  have sub: "set ?es \<subseteq> set ?ts"
    using discoveredEdges_keys[of files] by blast
  have "map tripleKey ?es = map edgeKeyOf (discoveredEdges files)"
    by (simp add: edgeKeyOf_triple)
  also have "\<dots> = firstOccurrences {} (map tripleKey ?ts)"
    using discoveredEdges_keys[of files] by (simp add: comp_def)
  also have "\<dots> = map tripleKey (firstOccurrences {} ?ts)"
    using firstOccurrences_map[of tripleKey "{}" ?ts] inj by simp
  finally have eq: "map tripleKey ?es = map tripleKey (firstOccurrences {} ?ts)" .
  have "set (firstOccurrences {} ?ts) \<subseteq> set ?ts"
    by (simp add: firstOccurrences_set)
  with sub have "inj_on tripleKey (set ?es \<union> set (firstOccurrences {} ?ts))"
    by (intro inj_on_subset[OF inj]) blast
  from inj_on_map_eq_map[OF this] eq show ?thesis by blast
qed

subsection \<open>Resolved targets\<close>

lemma registrants_ids: "set (registrants files s) \<subseteq> set (map pf_id files)"
  by (auto simp: registrants_def)

lemma resolve_Some_id:
  assumes "resolveModuleTarget p (buildSuffixIndex files) = Some t"
  shows "t \<in> set (map pf_id files)"
proof -
  from assms obtain s where s: "length (registrants files s) = 1" "t = hd (registrants files s)"
    unfolding resolve_attempts by (auto split: option.splits simp: find_Some_iff)
  then have "t \<in> set (registrants files s)" by (cases "registrants files s") auto
  with registrants_ids show ?thesis by blast
qed

lemma resolvedTargetOf_cases:
  "resolvedTargetOf (buildSuffixIndex files) p \<in> set (map pf_id files) \<or>
   (resolveModuleTarget p (buildSuffixIndex files) = None \<and>
    resolvedTargetOf (buildSuffixIndex files) p = p)"
  by (auto simp: resolvedTargetOf_def split: option.splits dest: resolve_Some_id)

subsection \<open>Virtual nodes\<close>

lemma declStep_virtual:
  "b_virtualNodes (declStep index ids b d) =
     (if declTarget index d \<notin> ids
      then AList.update (declTarget index d)
             (virtualNode (declTarget index d) (snd (snd d))) (b_virtualNodes b)
      else b_virtualNodes b)"
  by (cases d)
    (simp add: declStep_def processDeclaration_def Let_def addVirtual_def addAlias_def
      addConsumer_def addEdge_def declTarget_def)

lemma foldl_declStep_virtual:
  assumes "index = buildSuffixIndex files" "ids = set (map pf_id files)"
  shows "virtualInv ids (b_virtualNodes b) \<Longrightarrow>
         virtualInv ids (b_virtualNodes (foldl (declStep index ids) b ds)) \<and>
         fst ` set (b_virtualNodes (foldl (declStep index ids) b ds)) =
           fst ` set (b_virtualNodes b) \<union> {t \<in> declTarget index ` set ds. t \<notin> ids}"
proof (induction ds arbitrary: b)
  case Nil
  then show ?case by simp
next
  case (Cons d ds)
  let ?b = "declStep index ids b d"
  let ?t = "declTarget index d"
  have inv: "virtualInv ids (b_virtualNodes ?b)"
  proof (cases "?t \<in> ids")
    case True
    with Cons.prems show ?thesis by (simp add: declStep_virtual)
  next
    case False
    with resolvedTargetOf_cases[of files "snd (snd d)"] assms
    have "?t = snd (snd d)" by (auto simp: declTarget_def)
    with False Cons.prems show ?thesis
      by (auto simp: declStep_virtual virtualInv_def AList.distinct_update AList.update_conv')
  qed
  have dom: "fst ` set (b_virtualNodes ?b) =
               fst ` set (b_virtualNodes b) \<union> (if ?t \<notin> ids then {?t} else {})"
    by (auto simp: declStep_virtual AList.dom_update)
  from Cons.IH[OF inv] dom show ?case by auto
qed

lemma virtualNodesOf_props:
  "virtualInv (set (map pf_id files)) (virtualNodesOf files) \<and>
   fst ` set (virtualNodesOf files) =
     {t \<in> declTarget (buildSuffixIndex files) ` set (declarations files).
        t \<notin> set (map pf_id files)}"
  using foldl_declStep_virtual[OF refl refl, of files emptyBuilder "declarations files"]
  by (simp add: virtualNodesOf_def processFile_flat virtualInv_def emptyBuilder_def)

subsection \<open>Nodes\<close>

lemma foldl_pushVirtual:
  "distinct (map n_id vs) \<Longrightarrow> set (map n_id vs) \<inter> set (map n_id ns) = {} \<Longrightarrow>
   foldl pushVirtual ns vs = ns @ vs"
proof (induction vs arbitrary: ns)
  case Nil
  then show ?case by simp
next
  case (Cons v vs)
  from Cons.prems(2) have "n_id v \<notin> n_id ` set ns" by auto
  then have new: "\<not> list_ex (\<lambda>node. n_id node = n_id v) ns"
    by (auto simp: list_ex_iff image_iff)
  from Cons.prems have "set (map n_id vs) \<inter> set (map n_id (ns @ [v])) = {}" by auto
  with Cons.IH[of "ns @ [v]"] Cons.prems(1) new show ?case by (simp add: pushVirtual_def)
qed

lemma fileNode_id: "n_id (fileNode collate index files b f) = pf_id f"
  by (simp add: fileNode_def Let_def)

lemma fileNode_real: "n_isVirtual (fileNode collate index files b f) = False"
  by (simp add: fileNode_def Let_def)

lemma virtualNode_id: "n_id (virtualNode k p) = k"
  by (simp add: virtualNode_def)

lemma virtual_entry:
  assumes "virtualInv ids vs" "(k, v) \<in> set vs"
  shows "v = virtualNode k k" "k \<notin> ids" "n_id v = k"
proof -
  from assms have "map_of vs k = Some v" by (simp add: virtualInv_def)
  with assms(1) show "v = virtualNode k k" "k \<notin> ids" by (auto simp: virtualInv_def)
  then show "n_id v = k" by (simp add: virtualNode_id)
qed

lemma virtual_values:
  assumes "virtualInv ids vs"
  shows "map (n_id \<circ> snd) vs = map fst vs"
    and "\<forall>v \<in> set (map snd vs). v = virtualNode (n_id v) (n_id v) \<and> n_id v \<notin> ids"
proof -
  show "map (n_id \<circ> snd) vs = map fst vs"
    using virtual_entry(3)[OF assms] by (intro map_cong) auto
  show "\<forall>v \<in> set (map snd vs). v = virtualNode (n_id v) (n_id v) \<and> n_id v \<notin> ids"
    using virtual_entry[OF assms] by fastforce
qed

lemma assembleGraph_nodes:
  "g_nodes (assembleGraph collate files) =
     sortBy (\<lambda>a b. collate (n_id a) (n_id b))
       (fileNodes collate files @ map snd (virtualNodesOf files))"
proof -
  note v = virtualNodesOf_props[of files]
  note vals = virtual_values[OF v[THEN conjunct1]]
  have "distinct (map fst (virtualNodesOf files))"
    using v by (simp add: virtualInv_def)
  then have d: "distinct (map n_id (map snd (virtualNodesOf files)))"
    unfolding map_map vals(1) .
  have "set (map n_id (map snd (virtualNodesOf files))) \<inter> set (map n_id (fileNodes collate files)) = {}"
    using vals(2) by (auto simp: fileNodes_def fileNode_id)
  from foldl_pushVirtual[OF d this] show ?thesis
    by (simp add: assembleGraph_def Let_def fileNodes_def virtualNodesOf_def)
qed

lemma assembleGraph_edges:
  "g_edges (assembleGraph collate files) =
     sortBy (\<lambda>a b. collate (e_id a) (e_id b)) (discoveredEdges files)"
  by (simp add: assembleGraph_def Let_def discoveredEdges_def)

subsection \<open>Direct consumers\<close>






subsection \<open>Symbol users\<close>





subsection \<open>Alias counts\<close>

lemma declStep_aliases:
  "b_aliasCounts (declStep index ids b d) =
     (if declTarget index d \<noteq> snd (snd d) \<and> declTarget index d \<noteq> pf_id (fst d)
      then AList.update (declTarget index d)
             (AList.update (snd (snd d))
                (aliasCount (aliasesOf (b_aliasCounts b) (declTarget index d)) (snd (snd d)) + 1)
                (aliasesOf (b_aliasCounts b) (declTarget index d)))
             (b_aliasCounts b)
      else b_aliasCounts b)"
  by (cases d)
    (simp add: declStep_def processDeclaration_def Let_def addVirtual_def addAlias_def
      addConsumer_def addEdge_def declTarget_def aliasesOf_def aliasCount_def)

lemma declStep_aliasesOf:
  "aliasesOf (b_aliasCounts (declStep index ids b d)) t =
     (if declTarget index d = t \<and> t \<noteq> snd (snd d) \<and> t \<noteq> pf_id (fst d)
      then AList.update (snd (snd d))
             (aliasCount (aliasesOf (b_aliasCounts b) t) (snd (snd d)) + 1)
             (aliasesOf (b_aliasCounts b) t)
      else aliasesOf (b_aliasCounts b) t)"
  by (auto simp: declStep_aliases aliasesOf_def AList.update_conv')

lemma declStep_aliasCount:
  "aliasCount (aliasesOf (b_aliasCounts (declStep index ids b d)) t) p =
     aliasCount (aliasesOf (b_aliasCounts b) t) p + (if countsAlias index t p d then 1 else 0)"
  by (auto simp: declStep_aliasesOf aliasCount_def AList.update_conv' countsAlias_def)

lemma update_aliasInv:
  assumes "aliasInv m"
  shows "aliasInv (AList.update k (aliasCount m k + 1) m)"
proof -
  have "0 < c" if "map_of (AList.update k (aliasCount m k + 1) m) p = Some c" for p c
  proof (cases "p = k")
    case True
    with that show ?thesis by (simp add: AList.update_conv')
  next
    case False
    with that have "map_of m p = Some c" by (simp add: AList.update_conv')
    with assms show ?thesis unfolding aliasInv_def by blast
  qed
  with assms show ?thesis
    unfolding aliasInv_def by (blast intro: AList.distinct_update)
qed

lemma declStep_aliasInv:
  "aliasInv (aliasesOf (b_aliasCounts b) t) \<Longrightarrow>
   aliasInv (aliasesOf (b_aliasCounts (declStep index ids b d)) t)"
  using update_aliasInv[of "aliasesOf (b_aliasCounts b) t" "snd (snd d)"]
  by (simp add: declStep_aliasesOf)

lemma foldl_declStep_aliases:
  "aliasInv (aliasesOf (b_aliasCounts b) t) \<Longrightarrow>
   aliasInv (aliasesOf (b_aliasCounts (foldl (declStep index ids) b ds)) t) \<and>
   aliasCount (aliasesOf (b_aliasCounts (foldl (declStep index ids) b ds)) t) p =
     aliasCount (aliasesOf (b_aliasCounts b) t) p + length (filter (countsAlias index t p) ds)"
proof (induction ds arbitrary: b)
  case Nil
  then show ?case by simp
next
  case (Cons d ds)
  from Cons.IH[OF declStep_aliasInv[OF Cons.prems, of index ids d]] show ?case
    by (simp add: declStep_aliasCount)
qed

lemma observedAliases_props:
  "aliasInv (observedAliases files t) \<and>
   aliasCount (observedAliases files t) p =
     length (filter (countsAlias (buildSuffixIndex files) t p) (declarations files))"
  using foldl_declStep_aliases[of emptyBuilder t "buildSuffixIndex files"
      "set (map pf_id files)" "declarations files" p]
  by (simp add: observedAliases_def processFile_flat aliasesOf_def emptyBuilder_def aliasInv_def
      aliasCount_def del: map_of_eq_Some_iff)

lemma observedAliases_entry:
  "(p, c) \<in> set (observedAliases files t) \<longleftrightarrow>
     0 < c \<and> c = length (filter (countsAlias (buildSuffixIndex files) t p) (declarations files))"
proof -
  note pr = observedAliases_props[of files t p]
  then have d: "distinct (map fst (observedAliases files t))" unfolding aliasInv_def by blast
  have pos: "0 < c'" if "map_of (observedAliases files t) p = Some c'" for c'
    using pr that unfolding aliasInv_def by blast
  show ?thesis
  proof
    assume "(p, c) \<in> set (observedAliases files t)"
    with d have m: "map_of (observedAliases files t) p = Some c" by simp
    then have "aliasCount (observedAliases files t) p = c" by (simp add: aliasCount_def)
    with pr pos[OF m]
    show "0 < c \<and> c = length (filter (countsAlias (buildSuffixIndex files) t p) (declarations files))"
      by simp
  next
    assume a: "0 < c \<and> c = length (filter (countsAlias (buildSuffixIndex files) t p) (declarations files))"
    then have c0: "0 < c"
      and ceq: "c = length (filter (countsAlias (buildSuffixIndex files) t p) (declarations files))"
      by auto
    from pr ceq have "aliasCount (observedAliases files t) p = c" by simp
    with c0 have "map_of (observedAliases files t) p = Some c"
      by (cases "map_of (observedAliases files t) p") (simp_all add: aliasCount_def)
    then show "(p, c) \<in> set (observedAliases files t)" by (rule map_of_SomeD)
  qed
qed

subsection \<open>Alias chooser\<close>

lemma aliasCompare_le: "aliasCompare collate a b \<le> 0 \<longleftrightarrow> preferred collate a b"
  by (auto simp: aliasCompare_def preferred_def)

lemma preferred_total: "consistent collate \<Longrightarrow> preferred collate a b \<or> preferred collate b a"
  using consistent_total[of collate "fst a" "fst b"] by (auto simp: preferred_def)

lemma preferred_trans:
  "consistent collate \<Longrightarrow> preferred collate a b \<Longrightarrow> preferred collate b c \<Longrightarrow> preferred collate a c"
  using consistent_trans[of collate "fst a" "fst b" "fst c"] by (auto simp: preferred_def)

lemma preferred_refl: "consistent collate \<Longrightarrow> preferred collate a a"
  using consistent_refl[of collate "fst a"] by (simp add: preferred_def)

lemma sortBy_hd_least:
  assumes total: "\<And>a b. cmp a b \<le> 0 \<or> cmp b a \<le> 0"
    and trans: "\<And>a b c. cmp a b \<le> 0 \<Longrightarrow> cmp b c \<le> 0 \<Longrightarrow> cmp a c \<le> 0"
    and "sortBy cmp xs = first # others" "y \<in> set xs"
  shows "first \<in> set xs \<and> cmp first y \<le> 0"
proof -
  have s: "sorted_wrt (\<lambda>a b. cmp a b \<le> 0) (first # others)"
    using sorted_sortBy[of cmp xs, OF total trans] assms(3) by simp
  have m: "set xs = set (first # others)"
    using set_sortBy[of cmp xs] assms(3) by simp
  from total[of first first] have "cmp first first \<le> 0" by simp
  with s m assms(4) show ?thesis by auto
qed

lemma chooseModulePath_none: "chooseModulePath collate None fallback = fallback"
  by (simp add: chooseModulePath_def)

lemma chooseModulePath_empty: "chooseModulePath collate (Some []) fallback = fallback"
  by (simp add: chooseModulePath_def sortBy_def)

lemma chooseModulePath_best:
  assumes "m \<noteq> []" and c: "consistent collate"
  shows "\<exists>c. (chooseModulePath collate (Some m) fallback, c) \<in> set m \<and>
             (\<forall>e \<in> set m. preferred collate (chooseModulePath collate (Some m) fallback, c) e)"
proof -
  from assms(1) obtain first others where so: "sortBy (aliasCompare collate) m = first # others"
    using sortBy_Nil_iff[of "aliasCompare collate" m] by (cases "sortBy (aliasCompare collate) m") auto
  have total: "\<And>a b. aliasCompare collate a b \<le> 0 \<or> aliasCompare collate b a \<le> 0"
    using preferred_total[OF c] by (simp add: aliasCompare_le)
  have trans: "\<And>a b c. aliasCompare collate a b \<le> 0 \<Longrightarrow> aliasCompare collate b c \<le> 0 \<Longrightarrow> aliasCompare collate a c \<le> 0"
    using preferred_trans[OF c] by (simp add: aliasCompare_le)
  have r: "chooseModulePath collate (Some m) fallback = fst first"
    by (simp add: chooseModulePath_def so)
  have least: "first \<in> set m \<and> preferred collate first e" if "e \<in> set m" for e
    using sortBy_hd_least[of "aliasCompare collate" m first others e, OF total trans so that]
    by (simp add: aliasCompare_le)
  from assms(1) obtain e0 where "e0 \<in> set m" by (cases m) auto
  from least[OF this] have "first \<in> set m" by simp
  with least show ?thesis unfolding r by (intro exI[of _ "snd first"]) simp
qed

subsection \<open>Edge identifiers\<close>

lemma edgeIds_nine_sorted: "sorted_wrt (\<lambda>a b. localeCompare a b \<le> 0) (edgeIds 9)"
  by code_simp

lemma edgeIds_take: "n \<le> m \<Longrightarrow> edgeIds n = take n (edgeIds m)"
proof -
  assume "n \<le> m"
  then have "take n [1..<Suc m] = [1..<Suc n]"
    using take_upt[of 1 n "Suc m"] by simp
  then show ?thesis
    unfolding edgeIds_def take_map by simp
qed

lemma edgeIds_sorted: "n \<le> 9 \<Longrightarrow> sorted_wrt (\<lambda>a b. localeCompare a b \<le> 0) (edgeIds n)"
  using edgeIds_nine_sorted sorted_wrt_take[of _ "edgeIds 9" n] by (simp add: edgeIds_take[of n 9])

lemma edges_sorted_by_id:
  "sorted_wrt (\<lambda>a b. localeCompare (e_id a) (e_id b) \<le> 0)
     (g_edges (assembleGraph localeCompare files))"
  unfolding assembleGraph_edges
proof (rule sorted_sortBy)
  show "localeCompare (e_id a) (e_id b) \<le> 0 \<or> localeCompare (e_id b) (e_id a) \<le> 0" for a b
    by (rule localeCompare_total)
  show "localeCompare (e_id a) (e_id c) \<le> 0"
    if "localeCompare (e_id a) (e_id b) \<le> 0" "localeCompare (e_id b) (e_id c) \<le> 0" for a b c
    using that by (rule localeCompare_trans)
qed

text \<open>
  The edge sort compares edge identifiers only: every collation that orders them as the
  comparison by code units does gives the same edge list.
\<close>

lemma edges_any_collation:
  assumes "\<forall>a \<in> set (edgeIds (length (discoveredEdges files))).
           \<forall>b \<in> set (edgeIds (length (discoveredEdges files))).
             (collate a b \<le> 0) = (localeCompare a b \<le> 0)"
  shows "g_edges (assembleGraph collate files) = g_edges (assembleGraph localeCompare files)"
proof -
  have ids: "map e_id (discoveredEdges files) = edgeIds (length (discoveredEdges files))"
    using discoveredEdges_keys[of files] by blast
  have "e_id a \<in> set (edgeIds (length (discoveredEdges files)))"
    if "a \<in> set (discoveredEdges files)" for a
    using that ids by (metis image_eqI set_map)
  with assms show ?thesis unfolding assembleGraph_edges by (intro sortBy_cong) blast
qed

subsection \<open>Resolution and file order\<close>

lemma registrants_mset:
  "mset files = mset files' \<Longrightarrow> mset (registrants files s) = mset (registrants files' s)"
  unfolding registrants_def by (metis mset_filter mset_map)

lemma singleton_mset_eq:
  assumes "mset xs = mset ys" "length xs = 1"
  shows "xs = ys"
proof -
  from assms(2) obtain x where x: "xs = [x]" by (cases xs) auto
  with assms(1) have "mset ys = {#x#}" by simp
  then have "ys = [x]" by (simp add: mset_single_iff_right)
  with x show ?thesis by simp
qed

lemma resolve_permutation:
  assumes "mset files = mset files'"
  shows "resolveModuleTarget declared (buildSuffixIndex files) =
         resolveModuleTarget declared (buildSuffixIndex files')"
proof -
  have len: "length (registrants files s) = length (registrants files' s)" for s
    using registrants_mset[OF assms, of s] by (metis size_mset)
  have hd: "hd (registrants files s) = hd (registrants files' s)"
    if "length (registrants files s) = 1" for s
    using singleton_mset_eq[OF registrants_mset[OF assms, of s] that] by simp
  have f: "find (\<lambda>s. length (registrants files s) = 1) ss =
           find (\<lambda>s. length (registrants files' s) = 1) ss" for ss
    by (simp add: len)
  show ?thesis
  proof (cases "find (\<lambda>s. length (registrants files s) = 1) (attempts declared)")
    case None
    with f[of "attempts declared"] show ?thesis by (simp add: resolve_attempts)
  next
    case (Some s)
    then have "length (registrants files s) = 1" by (auto simp: find_Some_iff)
    note h = hd[OF this]
    have f': "find (\<lambda>s. length (registrants files' s) = 1) (attempts declared) = Some s"
      using Some f[of "attempts declared"] by simp
    show ?thesis unfolding resolve_attempts Some f' using h by simp
  qed
qed

subsection \<open>Unresolved paths\<close>

lemma node_cases:
  "n \<in> set (g_nodes (assembleGraph collate files)) \<longleftrightarrow>
     n \<in> set (fileNodes collate files) \<or> n \<in> snd ` set (virtualNodesOf files)"
  by (auto simp: assembleGraph_nodes set_sortBy)

lemma fileNodes_mem:
  "n \<in> set (fileNodes collate files) \<Longrightarrow> n_isVirtual n = False \<and> n_id n \<in> set (map pf_id files)"
  by (auto simp: fileNodes_def fileNode_id fileNode_real)

lemma virtual_mem:
  assumes "n \<in> snd ` set (virtualNodesOf files)"
  shows "n = virtualNode (n_id n) (n_id n)" "n_id n \<notin> set (map pf_id files)"
    "n_id n \<in> fst ` set (virtualNodesOf files)"
proof -
  from assms obtain k where k: "(k, n) \<in> set (virtualNodesOf files)" by auto
  note e = virtual_entry[OF virtualNodesOf_props[of files, THEN conjunct1] k]
  from e show "n = virtualNode (n_id n) (n_id n)" "n_id n \<notin> set (map pf_id files)" by simp_all
  from e k show "n_id n \<in> fst ` set (virtualNodesOf files)" by force
qed

lemma virtual_node_iff:
  "(\<exists>n \<in> set (g_nodes (assembleGraph collate files)). n_id n = p \<and> n_isVirtual n) \<longleftrightarrow>
     p \<notin> set (map pf_id files) \<and>
     (\<exists>d \<in> set (declarations files). declTarget (buildSuffixIndex files) d = p)"
proof
  assume "\<exists>n \<in> set (g_nodes (assembleGraph collate files)). n_id n = p \<and> n_isVirtual n"
  then obtain n where n: "n \<in> set (g_nodes (assembleGraph collate files))" "n_id n = p" "n_isVirtual n"
    by blast
  with fileNodes_mem[of n collate files] have "n \<in> snd ` set (virtualNodesOf files)"
    by (auto simp: node_cases)
  from virtual_mem[OF this] n(2) virtualNodesOf_props[of files]
  show "p \<notin> set (map pf_id files) \<and>
     (\<exists>d \<in> set (declarations files). declTarget (buildSuffixIndex files) d = p)"
    by auto
next
  assume a: "p \<notin> set (map pf_id files) \<and>
     (\<exists>d \<in> set (declarations files). declTarget (buildSuffixIndex files) d = p)"
  with virtualNodesOf_props[of files] have "p \<in> fst ` set (virtualNodesOf files)" by auto
  then obtain v where v: "(p, v) \<in> set (virtualNodesOf files)" by auto
  note e = virtual_entry[OF virtualNodesOf_props[of files, THEN conjunct1] v]
  have "v \<in> set (g_nodes (assembleGraph collate files))"
    using v by (force simp: node_cases)
  moreover have "n_isVirtual v" using e(1) by (simp add: virtualNode_def)
  ultimately show "\<exists>n \<in> set (g_nodes (assembleGraph collate files)). n_id n = p \<and> n_isVirtual n"
    using e(3) by blast
qed

lemma unresolved_target:
  "resolveModuleTarget p index = None \<Longrightarrow> resolvedTargetOf index p = p"
  by (simp add: resolvedTargetOf_def)

subsection \<open>Edges of the final graph\<close>

lemma final_edges_triples:
  assumes "nulFree files"
  shows "distinct (map edgeTriple (g_edges (assembleGraph collate files)))"
    and "set (map edgeTriple (g_edges (assembleGraph collate files))) =
           set (map (declTriple (buildSuffixIndex files)) (declarations files))"
proof -
  note t = discoveredEdges_triples[OF assms]
  have "distinct (map edgeTriple (discoveredEdges files))"
    unfolding t by (rule firstOccurrences_distinct)
  then show "distinct (map edgeTriple (g_edges (assembleGraph collate files)))"
    unfolding assembleGraph_edges distinct_map_sortBy .
  have "set (map edgeTriple (discoveredEdges files)) =
          set (map (declTriple (buildSuffixIndex files)) (declarations files))"
    unfolding t by (simp add: firstOccurrences_set)
  then show "set (map edgeTriple (g_edges (assembleGraph collate files))) =
           set (map (declTriple (buildSuffixIndex files)) (declarations files))"
    unfolding assembleGraph_edges by (simp add: set_sortBy)
qed

lemma exactly_one:
  "distinct (map f xs) \<Longrightarrow> y \<in> f ` set xs \<Longrightarrow> length (filter (\<lambda>x. f x = y) xs) = 1"
proof (induction xs)
  case Nil
  then show ?case by simp
next
  case (Cons x xs)
  show ?case
  proof (cases "f x = y")
    case True
    with Cons.prems(1) have "filter (\<lambda>x. f x = y) xs = []"
      by (auto simp: filter_empty_conv image_iff)
    with True show ?thesis by simp
  next
    case False
    with Cons show ?thesis by auto
  qed
qed

lemma one_edge_per_declaration:
  assumes "nulFree files" "d \<in> set (declarations files)"
  shows "length (filter (\<lambda>e. edgeTriple e = declTriple (buildSuffixIndex files) d)
           (g_edges (assembleGraph collate files))) = 1"
proof -
  have "declTriple (buildSuffixIndex files) d \<in> edgeTriple ` set (g_edges (assembleGraph collate files))"
    using final_edges_triples(2)[OF assms(1)] assms(2) by auto
  from exactly_one[OF final_edges_triples(1)[OF assms(1)] this] show ?thesis .
qed

lemma edge_of_declaration:
  assumes "nulFree files" "d \<in> set (declarations files)"
  shows "\<exists>e \<in> set (g_edges (assembleGraph collate files)).
           edgeTriple e = declTriple (buildSuffixIndex files) d"
proof -
  have "declTriple (buildSuffixIndex files) d \<in>
          set (map edgeTriple (g_edges (assembleGraph collate files)))"
    unfolding final_edges_triples(2)[OF assms(1)] using assms(2) by simp
  then show ?thesis by auto
qed

subsection \<open>Nodes of the final graph\<close>

lemma filter_sortBy_mset: "mset (filter P (sortBy cmp xs)) = mset (filter P xs)"
  by (simp add: mset_sortBy)

lemma virtualNode_isVirtual: "n_isVirtual (virtualNode k p)"
  by (simp add: virtualNode_def)

lemma virtual_filter:
  "mset (filter n_isVirtual (g_nodes (assembleGraph collate files))) =
     mset (map snd (virtualNodesOf files))"
proof -
  have f: "filter n_isVirtual (fileNodes collate files) = []"
    by (auto simp: filter_empty_conv dest: fileNodes_mem)
  have v: "filter n_isVirtual (map snd (virtualNodesOf files)) = map snd (virtualNodesOf files)"
  proof (rule filter_True, clarify)
    fix n assume "n \<in> set (map snd (virtualNodesOf files))"
    then have "n \<in> snd ` set (virtualNodesOf files)" by simp
    from virtual_mem(1)[OF this] show "n_isVirtual n"
      using virtualNode_isVirtual[of "n_id n" "n_id n"] by simp
  qed
  have "mset (filter n_isVirtual (g_nodes (assembleGraph collate files))) =
          mset (filter n_isVirtual (fileNodes collate files @ map snd (virtualNodesOf files)))"
    unfolding assembleGraph_nodes by (rule filter_sortBy_mset)
  also have "\<dots> = mset (map snd (virtualNodesOf files))"
    unfolding filter_append f v by simp
  finally show ?thesis .
qed

lemma virtual_ids_distinct:
  "distinct (map n_id (filter n_isVirtual (g_nodes (assembleGraph collate files))))"
proof -
  have "mset (map n_id (filter n_isVirtual (g_nodes (assembleGraph collate files)))) =
          mset (map n_id (map snd (virtualNodesOf files)))"
    using virtual_filter[of collate files] by (metis mset_map)
  moreover have "distinct (map n_id (map snd (virtualNodesOf files)))"
  proof -
    have "distinct (map fst (virtualNodesOf files))"
      using virtualNodesOf_props[of files] unfolding virtualInv_def by blast
    then show ?thesis
      unfolding map_map virtual_values(1)[OF virtualNodesOf_props[of files, THEN conjunct1]] .
  qed
  ultimately show ?thesis by (metis mset_eq_imp_distinct_iff)
qed

lemma file_node_present:
  assumes "f \<in> set files"
  shows "\<exists>n \<in> set (g_nodes (assembleGraph collate files)). n_id n = pf_id f \<and> \<not> n_isVirtual n"
proof -
  let ?n = "fileNode collate (buildSuffixIndex files) files
              (foldl (processFile (buildSuffixIndex files) (set (map pf_id files)))
                 emptyBuilder files) f"
  have "?n \<in> set (fileNodes collate files)" using assms by (simp add: fileNodes_def)
  then have "?n \<in> set (g_nodes (assembleGraph collate files))" by (simp add: node_cases)
  then show ?thesis by (auto simp: fileNode_id fileNode_real intro!: bexI[of _ ?n])
qed

lemma declTarget_unresolved:
  "resolveModuleTarget (snd (snd d)) index = None \<Longrightarrow> declTarget index d = snd (snd d)"
  by (simp add: declTarget_def unresolved_target)

lemma declTriple_parts:
  "declTriple index d = (fst (snd d), pf_id (fst d), declTarget index d)"
  by (cases d) (simp add: declTriple_def declTarget_def)

lemma twoVersions_parse: "parseImports twoVersions = Inr ([''x''], [])"
  by code_simp

lemma importAndExport_parse: "parseImports importAndExport = Inr ([''x''], [''x''])"
  by code_simp

lemma twoVersions_graph:
  "edgeTriples (buildGraph localeCompare [(''app.fs'', twoVersions)]) = Inr [(Import, ''app.fs'', ''x'')]"
  by code_simp

lemma importAndExport_graph:
  "edgeTriples (buildGraph localeCompare [(''app.fs'', importAndExport)]) =
     Inr [(Import, ''app.fs'', ''x''), (Reexport, ''app.fs'', ''x'')]"
  by code_simp

subsection \<open>The node of a file\<close>

lemma node_of_file:
  assumes "distinct (map pf_id files)" "f \<in> set files"
    "n \<in> set (g_nodes (assembleGraph collate files))" "n_id n = pf_id f"
  shows "n = fileNode collate (buildSuffixIndex files) files
               (foldl (processFile (buildSuffixIndex files) (set (map pf_id files)))
                  emptyBuilder files) f"
proof -
  have "n \<notin> snd ` set (virtualNodesOf files)"
    using virtual_mem(2)[of n files] assms(2,4) by auto
  with assms(3) have "n \<in> set (fileNodes collate files)" by (simp add: node_cases)
  then obtain f' where f': "f' \<in> set files"
    "n = fileNode collate (buildSuffixIndex files) files
               (foldl (processFile (buildSuffixIndex files) (set (map pf_id files)))
                  emptyBuilder files) f'"
    by (auto simp: fileNodes_def)
  with assms(4) have "pf_id f' = pf_id f" by (simp add: fileNode_id)
  with assms(1,2) f'(1) have "f' = f" by (meson distinct_map inj_onD)
  with f'(2) show ?thesis by simp
qed


lemma fileNode_modulePath:
  "n_modulePath (fileNode collate (buildSuffixIndex files) files
               (foldl (processFile (buildSuffixIndex files) (set (map pf_id files)))
                  emptyBuilder files) f) =
     chooseModulePath collate
       (map_of (b_aliasCounts
          (foldl (processFile (buildSuffixIndex files) (set (map pf_id files)))
             emptyBuilder files)) (pf_id f))
       (pf_filePath f)"
  by (simp add: fileNode_def Let_def)

subsection \<open>Consumers and edges\<close>




section \<open>Properties of the text analysis\<close>

declare matchLoop.simps [simp del] replaceLoop.simps [simp del]

subsection \<open>Groups that every match defines\<close>

lemma keeps_refl: "keeps x x {}"
  by (simp add: keeps_def)

lemma keeps_trans: "keeps x y G \<Longrightarrow> keeps y z H \<Longrightarrow> keeps x z (G \<union> H)"
  by (auto simp: keeps_def)

lemma keeps_weaken: "keeps x y G \<Longrightarrow> H \<subseteq> G \<Longrightarrow> keeps x y H"
  by (auto simp: keeps_def)

lemma repeatMatcher_keeps:
  assumes m: "\<And>x k z. m x k = Some z \<Longrightarrow> \<exists>y. k y = Some z \<and> keeps x y {}"
  shows "repeatMatcher n m x k = Some z \<Longrightarrow> \<exists>y. k y = Some z \<and> keeps x y {}"
proof (induction n arbitrary: x z)
  case 0
  then show ?case by (auto intro: keeps_refl)
next
  case (Suc n)
  let ?k = "\<lambda>y. if endIndex y = endIndex x then None else repeatMatcher n m y k"
  show ?case
  proof (cases "m x ?k")
    case None
    with Suc.prems have "k x = Some z" by simp
    then show ?thesis by (auto intro: keeps_refl)
  next
    case (Some r)
    with Suc.prems have "m x ?k = Some z" by simp
    from m[OF this] obtain y where y: "?k y = Some z" "keeps x y {}" by blast
    then have "repeatMatcher n m y k = Some z" by (simp split: if_splits)
    from Suc.IH[OF this] obtain y' where "k y' = Some z" "keeps y y' {}" by blast
    with y(2) show ?thesis using keeps_trans[of x y "{}" y' "{}"] by auto
  qed
qed

lemma rmatch_keeps:
  "rmatch r x k = Some z \<Longrightarrow> \<exists>y. k y = Some z \<and> keeps x y (definite r)"
proof (induction r arbitrary: x k z)
  case (Cls P)
  then obtain c cs where c: "rest x = c # cs"
    "k (x\<lparr>prevChar := Some c, rest := cs, endIndex := endIndex x + 1\<rparr>) = Some z"
    by (auto split: list.splits if_splits)
  have "keeps x (x\<lparr>prevChar := Some c, rest := cs, endIndex := endIndex x + 1\<rparr>) {}"
    by (simp add: keeps_def)
  with c(2) show ?case by auto
next
  case WordBoundary
  then show ?case by (auto split: if_splits intro: keeps_refl)
next
  case Eps
  then show ?case by (auto intro: keeps_refl)
next
  case (Seq a b)
  from Seq.prems have "rmatch a x (\<lambda>y. rmatch b y k) = Some z" by simp
  from Seq.IH(1)[OF this] obtain y where y: "rmatch b y k = Some z" "keeps x y (definite a)"
    by blast
  from Seq.IH(2)[OF y(1)] obtain y' where "k y' = Some z" "keeps y y' (definite b)" by blast
  with y(2) show ?case using keeps_trans by fastforce
next
  case (Alt a b)
  show ?case
  proof (cases "rmatch a x k")
    case None
    with Alt.prems have "rmatch b x k = Some z" by simp
    from Alt.IH(2)[OF this] show ?thesis
      by (auto intro: keeps_weaken[where G = "definite b"])
  next
    case (Some r)
    with Alt.prems have "rmatch a x k = Some z" by simp
    from Alt.IH(1)[OF this] show ?thesis
      by (auto intro: keeps_weaken[where G = "definite a"])
  qed
next
  case (Star a)
  have "\<And>x k z. rmatch a x k = Some z \<Longrightarrow> \<exists>y. k y = Some z \<and> keeps x y {}"
    using Star.IH by (blast intro: keeps_weaken)
  from repeatMatcher_keeps[of "rmatch a", OF this] Star.prems show ?case by simp
next
  case (Group n a)
  let ?k = "\<lambda>y. k (y\<lparr>captures := (captures y)(n \<mapsto> take (endIndex y - endIndex x) (rest x))\<rparr>)"
  from Group.prems have "rmatch a x ?k = Some z" by simp
  from Group.IH[OF this] obtain y where y: "?k y = Some z" "keeps x y (definite a)" by blast
  let ?y = "y\<lparr>captures := (captures y)(n \<mapsto> take (endIndex y - endIndex x) (rest x))\<rparr>"
  have "keeps x ?y (insert n (definite a))"
    using y(2) by (auto simp: keeps_def)
  with y(1) show ?case by auto
qed

lemma execAt_defines: "execAt r x = Some m \<Longrightarrow> g \<in> insert 0 (definite r) \<Longrightarrow> captures m g \<noteq> None"
proof -
  assume a: "execAt r x = Some m" and g: "g \<in> insert 0 (definite r)"
  from a have "rmatch (Group 0 r) (x\<lparr>captures := Map.empty\<rparr>) Some = Some m"
    by (simp add: execAt_def)
  from rmatch_keeps[OF this] have "keeps (x\<lparr>captures := Map.empty\<rparr>) m (definite (Group 0 r))"
    by auto
  with g show ?thesis by (auto simp: keeps_def)
qed

lemma firstMatch_defines:
  "firstMatch r b s i = Some (j, m) \<Longrightarrow> g \<in> insert 0 (definite r) \<Longrightarrow> captures m g \<noteq> None"
proof (induction s arbitrary: b i)
  case Nil
  then show ?case by (auto split: option.splits dest: execAt_defines)
next
  case (Cons c cs)
  show ?case
  proof (cases "execAt r \<lparr>prevChar = b, rest = c # cs, endIndex = i, captures = Map.empty\<rparr>")
    case None
    with Cons.prems have "firstMatch r (Some c) cs (i + 1) = Some (j, m)" by simp
    from Cons.IH[OF this Cons.prems(2)] show ?thesis .
  next
    case (Some m')
    with Cons.prems have "m' = m" by auto
    with Some Cons.prems(2) show ?thesis by (auto dest: execAt_defines)
  qed
qed

subsection \<open>The loops end\<close>

lemma matchLoop_total:
  "0 < minLen r \<Longrightarrow>
   \<exists>ms. matchLoop r x = Some ms \<and>
        (\<forall>m \<in> set ms. \<forall>g \<in> insert 0 (definite r). captures m g \<noteq> None)"
proof (induction r x rule: matchLoop.induct)
  case (1 r x)
  show ?case
  proof (cases "exec r x")
    case None
    then show ?thesis unfolding matchLoop.simps[of r x] by simp
  next
    case (Some im)
    obtain i m where im: "im = (i, m)" by (cases im)
    from exec_bounds[of r x i m] Some im "1.prems" have lt: "endIndex x < endIndex m" by simp
    from "1.IH"[OF Some im[symmetric] lt "1.prems"]
    obtain ms where ms: "matchLoop r m = Some ms"
      "\<forall>m \<in> set ms. \<forall>g \<in> insert 0 (definite r). captures m g \<noteq> None" by blast
    have d: "\<forall>g \<in> insert 0 (definite r). captures m g \<noteq> None"
      using Some im firstMatch_defines[of r "prevChar x" "rest x" "endIndex x" i m]
      by (auto simp: exec_def)
    have "matchLoop r x = Some (m # ms)"
      unfolding matchLoop.simps[of r x] by (simp add: Some im lt ms(1))
    with ms(2) d show ?thesis by simp
  qed
qed

subsection \<open>The extractor never fails\<close>

text \<open>
  The failures of the model are those of the language: a method call on a group that is
  undefined, and a loop over the matches that never moves on. Neither occurs. The limits
  of the engine are not part of the model: the backtrack stack of the regular expression
  engine is finite, and the \<^verbatim>\<open>replace\<close> of \<^verbatim>\<open>extractIdentifierTokens\<close>, whose pattern
  has a group inside a star, can exhaust it on a string literal of some millions of
  characters.
\<close>

lemma foldFailure_total:
  assumes "\<And>acc m. m \<in> set ms \<Longrightarrow> \<exists>acc'. f acc m = Inr acc'"
  shows "\<exists>r. foldFailure f acc ms = Inr r"
  using assms
proof (induction ms arbitrary: acc)
  case Nil
  then show ?case by simp
next
  case (Cons m ms)
  from Cons.prems[of m acc] obtain acc' where a: "f acc m = Inr acc'" by auto
  from Cons.IH[of acc'] Cons.prems obtain r where "foldFailure f acc' ms = Inr r" by auto
  with a show ?case by simp
qed

lemma minLen_seqs: "minLen (seqs rs) = sum_list (map minLen rs)"
  by (induction rs) (simp_all add: seqs_def)

lemma definite_seqs: "definite (seqs rs) = \<Union> (set (map definite rs))"
  by (induction rs) (simp_all add: seqs_def)

lemma importPattern_facts: "0 < minLen importPattern" "2 \<in> definite importPattern"
  by (simp_all add: importPattern_def minLen_seqs definite_seqs lit_def chr_def Plus_def Opt_def
      space_def)

lemma exportPattern_facts: "0 < minLen exportPattern" "2 \<in> definite exportPattern"
  by (simp_all add: exportPattern_def minLen_seqs definite_seqs lit_def chr_def Plus_def
      space_def)

lemma identifierPattern_facts: "0 < minLen identifierPattern"
  by (simp add: identifierPattern_def minLen_seqs)

lemma parseImports_total: "\<exists>r. parseImports source = Inr r"
proof -
  from matchLoop_total[OF importPattern_facts(1), of "startOf source"] importPattern_facts(2)
  obtain ms where ms: "matchLoop importPattern (startOf source) = Some ms"
    "\<forall>m \<in> set ms. captures m 2 \<noteq> None" by blast
  have "\<exists>acc'. importStep acc m = Inr acc'" if "m \<in> set ms" for acc m
    using ms(2) that by (auto simp: importStep_def Let_def)
  from foldFailure_total[of ms importStep, OF this] ms(1) show ?thesis
    by (simp add: parseImports_def)
qed

lemma parseExportedSymbols_total: "\<exists>r. parseExportedSymbols source = Inr r"
proof -
  from matchLoop_total[OF exportPattern_facts(1), of "startOf source"] exportPattern_facts(2)
  obtain ms where ms: "matchLoop exportPattern (startOf source) = Some ms"
    "\<forall>m \<in> set ms. captures m 2 \<noteq> None" by blast
  have "\<exists>acc'. symbolStep acc m = Inr acc'" if "m \<in> set ms" for acc m
    using ms(2) that by (auto simp: symbolStep_def)
  from foldFailure_total[of ms symbolStep, OF this] ms(1) show ?thesis
    by (simp add: parseExportedSymbols_def)
qed

lemma extractIdentifierTokens_total: "\<exists>r. extractIdentifierTokens source = Inr r"
proof -
  let ?s = "replaceLoop stringPattern '' '' (startOf source)"
  from matchLoop_total[OF identifierPattern_facts, of "startOf ?s"]
  obtain ms where ms: "matchLoop identifierPattern (startOf ?s) = Some ms"
    "\<forall>m \<in> set ms. captures m 0 \<noteq> None" by blast
  have "\<exists>acc'. tokenStep acc m = Inr acc'" if "m \<in> set ms" for acc m
    using ms(2) that by (auto simp: tokenStep_def)
  from foldFailure_total[of ms tokenStep, OF this] ms(1) show ?thesis
    by (simp add: extractIdentifierTokens_def Let_def)
qed

lemma parseFile_total: "\<exists>file. parseFile (path, raw) = Inr file"
proof -
  obtain i where i: "parseImports (stripComments raw) = Inr i"
    using parseImports_total by blast
  obtain e where e: "parseExportedSymbols (stripComments raw) = Inr e"
    using parseExportedSymbols_total by blast
  obtain t where t: "extractIdentifierTokens (stripComments raw) = Inr t"
    using extractIdentifierTokens_total by blast
  show ?thesis by (simp add: parseFile_def Let_def i e t)
qed

lemma parseFiles_total: "\<exists>files. parseFiles tree = Inr files"
proof (induction tree)
  case Nil
  then show ?case by simp
next
  case (Cons entry tree)
  obtain pf where "parseFile entry = Inr pf"
    using parseFile_total[of "fst entry" "snd entry"] by auto
  with Cons show ?case by auto
qed

subsection \<open>The stripper keeps the line breaks\<close>

lemma nextChar_Some: "nextChar xs = Some c \<Longrightarrow> xs = c # tl xs"
  by (cases xs) (auto simp: nextChar_def)

lemma tl_newlines:
  "nextChar tail = Some (CHR ''/'') \<Longrightarrow>
   length (filter (\<lambda>c. c = newline) (tl tail)) = length (filter (\<lambda>c. c = newline) tail)"
  "nextChar tail = Some (CHR ''*'') \<Longrightarrow>
   length (filter (\<lambda>c. c = newline) (tl tail)) = length (filter (\<lambda>c. c = newline) tail)"
  by (cases tail; simp add: nextChar_def newline_def)+

lemma stripFrom_newlines_step:
  assumes r: "\<And>s' l' b' e'. length (filter (\<lambda>c. c = newline) (stripFrom s' l' b' e' tail)) =
             length (filter (\<lambda>c. c = newline) tail)"
    and t: "\<And>s' l' b' e'. length (filter (\<lambda>c. c = newline) (stripFrom s' l' b' e' (tl tail))) =
             length (filter (\<lambda>c. c = newline) (tl tail))"
    and n1: "nextChar tail = Some (CHR ''/'') \<Longrightarrow>
   length (filter (\<lambda>c. c = newline) (tl tail)) = length (filter (\<lambda>c. c = newline) tail)"
    and n2: "nextChar tail = Some (CHR ''*'') \<Longrightarrow>
   length (filter (\<lambda>c. c = newline) (tl tail)) = length (filter (\<lambda>c. c = newline) tail)"
    and ne: "CHR ''*'' \<noteq> newline" "CHR ''/'' \<noteq> newline"
  shows "length (filter (\<lambda>c. c = newline) (stripFrom s l b e (ch # tail))) =
   length (filter (\<lambda>c. c = newline) (ch # tail))"
proof (cases l)
  case True
  then show ?thesis by (simp add: r)
next
  case notLine: False
  show ?thesis
  proof (cases b)
    case True
    with notLine show ?thesis using ne by (auto simp: r t n1)
  next
    case notBlock: False
    show ?thesis
    proof (cases s)
      case True
      with notLine notBlock show ?thesis by (simp add: r)
    next
      case False
      with notLine notBlock show ?thesis using ne by (auto simp: r t n1 n2)
    qed
  qed
qed

lemma stripFrom_newlines:
  "length (filter (\<lambda>c. c = newline) (stripFrom s l b e source)) =
   length (filter (\<lambda>c. c = newline) source)"
proof (induction "length source" arbitrary: s l b e source rule: less_induct)
  case less
  show ?case
  proof (cases source)
    case Nil
    then show ?thesis by simp
  next
    case (Cons ch tail)
    have r: "length (filter (\<lambda>c. c = newline) (stripFrom s' l' b' e' tail)) =
             length (filter (\<lambda>c. c = newline) tail)" for s' l' b' e'
      using less[of tail] Cons by simp
    have t: "length (filter (\<lambda>c. c = newline) (stripFrom s' l' b' e' (tl tail))) =
             length (filter (\<lambda>c. c = newline) (tl tail))" for s' l' b' e'
      using less[of "tl tail"] Cons by simp
    have ne: "CHR ''*'' \<noteq> newline" "CHR ''/'' \<noteq> newline" by (simp_all add: newline_def)
    show ?thesis
      unfolding Cons by (rule stripFrom_newlines_step[OF r t tl_newlines ne])
  qed
qed

subsection \<open>Single steps of the stripper\<close>

lemma special_chars:
  "CHR ''/'' \<noteq> dquote" "CHR ''*'' \<noteq> dquote" "CHR ''/'' \<noteq> newline" "CHR ''*'' \<noteq> newline"
  "newline \<noteq> dquote" "backslash \<noteq> dquote" "CHR ''/'' \<noteq> CHR ''*''"
  by (simp_all add: dquote_def newline_def backslash_def)

lemma normal_step:
  "a \<noteq> dquote \<Longrightarrow>
   \<not> (a = CHR ''/'' \<and> (nextChar xs = Some (CHR ''/'') \<or> nextChar xs = Some (CHR ''*''))) \<Longrightarrow>
   stripFrom False False False e (a # xs) = a # stripFrom False False False e xs"
  by auto

lemma normal_quote:
  "stripFrom False False False e (dquote # xs) = dquote # stripFrom True False False e xs"
  by simp

lemma normal_line:
  "stripFrom False False False e (CHR ''/'' # CHR ''/'' # xs) = stripFrom False True False e xs"
  by (simp add: nextChar_def special_chars)

lemma normal_block:
  "stripFrom False False False e (CHR ''/'' # CHR ''*'' # xs) = stripFrom False False True e xs"
  by (simp add: nextChar_def special_chars)

lemma string_plain:
  "c \<noteq> backslash \<Longrightarrow> c \<noteq> dquote \<Longrightarrow>
   stripFrom True False False False (c # xs) = c # stripFrom True False False False xs"
  by simp

lemma string_escape:
  "stripFrom True False False False (backslash # c # xs) =
     backslash # c # stripFrom True False False False xs"
  by simp

lemma string_escape_end: "stripFrom True False False False [backslash] = [backslash]"
  by simp

lemma string_close:
  "stripFrom True False False False (dquote # xs) = dquote # stripFrom False False False False xs"
  by (simp add: special_chars[symmetric])

lemma line_skip:
  "c \<noteq> newline \<Longrightarrow>
   stripFrom False True False False (c # xs) = stripFrom False True False False xs"
  by simp

lemma line_end:
  "stripFrom False True False False (newline # xs) = newline # stripFrom False False False False xs"
  by simp

lemma block_close:
  "stripFrom False False True False (CHR ''*'' # CHR ''/'' # xs) =
     stripFrom False False False False xs"
  by (simp add: nextChar_def)

lemma block_skip:
  "\<not> (c = CHR ''*'' \<and> nextChar xs = Some (CHR ''/'')) \<Longrightarrow>
   stripFrom False False True False (c # xs) =
     filter (\<lambda>c. c = newline) [c] @ stripFrom False False True False xs"
  by auto

declare stripFrom.simps [simp del]

subsection \<open>The stripper on well-formed sources\<close>

lemma strip_code:
  "plainCode c \<Longrightarrow>
   (c \<noteq> [] \<and> last c = CHR ''/'' \<longrightarrow>
      nextChar tail \<noteq> Some (CHR ''/'') \<and> nextChar tail \<noteq> Some (CHR ''*'')) \<Longrightarrow>
   stripFrom False False False e (c @ tail) = c @ stripFrom False False False e tail"
proof (induction c rule: plainCode.induct)
  case (1 a b cs)
  from "1.prems" have ih: "stripFrom False False False e ((b # cs) @ tail) =
          (b # cs) @ stripFrom False False False e tail"
    by (intro "1.IH") auto
  have "stripFrom False False False e (a # (b # cs) @ tail) =
          a # stripFrom False False False e ((b # cs) @ tail)"
    using "1.prems"(1) by (intro normal_step) (auto simp: nextChar_def)
  with ih show ?case by simp
next
  case (2 a)
  have "stripFrom False False False e (a # tail) = a # stripFrom False False False e tail"
    using 2 by (intro normal_step) auto
  then show ?case by simp
next
  case 3
  then show ?case by simp
qed

lemma strip_string_body:
  "stringBody body \<Longrightarrow>
   stripFrom True False False False (body @ dquote # tail) =
     body @ dquote # stripFrom False False False False tail"
proof (induction body rule: stringBody.induct)
  case 1
  then show ?case by (simp add: string_close)
next
  case (2 c cs)
  show ?case
  proof (cases "c = backslash")
    case True
    with 2(3) obtain c' cs' where cs: "cs = c' # cs'" "stringBody cs'"
      by (cases cs) auto
    with 2(1)[OF True cs(1)] True show ?thesis by (simp add: string_escape)
  next
    case False
    with 2(2,3) show ?thesis by (simp add: string_plain)
  qed
qed

lemma strip_open_body:
  "openBody body \<Longrightarrow> stripFrom True False False False body = body"
proof (induction body rule: openBody.induct)
  case 1
  then show ?case by (simp add: stripFrom.simps)
next
  case (2 c cs)
  show ?case
  proof (cases "c = backslash")
    case True
    show ?thesis
    proof (cases cs)
      case Nil
      with True show ?thesis by (simp add: string_escape_end)
    next
      case (Cons c' cs')
      with 2(1)[OF True Cons] 2(3) True show ?thesis by (simp add: string_escape)
    qed
  next
    case False
    with 2(2,3) show ?thesis by (simp add: string_plain)
  qed
qed

lemma strip_line_body:
  "newline \<notin> set body \<Longrightarrow>
   stripFrom False True False False (body @ tail) = stripFrom False True False False tail"
  by (induction body) (auto simp: line_skip)

lemma strip_block_body:
  "noClose body \<Longrightarrow>
   stripFrom False False True False (body @ CHR ''*'' # CHR ''/'' # tail) =
     filter (\<lambda>c. c = newline) body @ stripFrom False False False False tail"
proof (induction body rule: noClose.induct)
  case (1 a b cs)
  from "1.prems" have ih: "stripFrom False False True False ((b # cs) @ CHR ''*'' # CHR ''/'' # tail) =
     filter (\<lambda>c. c = newline) (b # cs) @ stripFrom False False False False tail"
    by (intro "1.IH") simp
  have "stripFrom False False True False (a # (b # cs) @ CHR ''*'' # CHR ''/'' # tail) =
          filter (\<lambda>c. c = newline) [a] @
          stripFrom False False True False ((b # cs) @ CHR ''*'' # CHR ''/'' # tail)"
    using "1.prems" by (intro block_skip) (auto simp: nextChar_def)
  with ih show ?case by simp
next
  case 3
  then show ?case by (simp add: block_close)
next
  case (2 v)
  have "stripFrom False False True False (v # CHR ''*'' # CHR ''/'' # tail) =
          filter (\<lambda>c. c = newline) [v] @
          stripFrom False False True False (CHR ''*'' # CHR ''/'' # tail)"
    by (intro block_skip) (auto simp: nextChar_def special_chars)
  then show ?case by (simp add: block_close)
qed

lemma strip_open_block:
  "noClose body \<Longrightarrow>
   stripFrom False False True False body = filter (\<lambda>c. c = newline) body"
proof (induction body rule: noClose.induct)
  case (1 a b cs)
  from "1.prems" have ih: "stripFrom False False True False (b # cs) =
     filter (\<lambda>c. c = newline) (b # cs)"
    by (intro "1.IH") simp
  have "stripFrom False False True False (a # b # cs) =
          filter (\<lambda>c. c = newline) [a] @ stripFrom False False True False (b # cs)"
    using "1.prems" by (intro block_skip) (auto simp: nextChar_def)
  with ih show ?case by simp
next
  case 3
  then show ?case by (simp add: stripFrom.simps)
next
  case (2 v)
  have "stripFrom False False True False [v] =
          filter (\<lambda>c. c = newline) [v] @ stripFrom False False True False []"
    by (intro block_skip) (auto simp: nextChar_def)
  then show ?case by (simp add: stripFrom.simps)
qed

lemma strip_pieces:
  "wellFormed ps \<Longrightarrow>
   stripFrom False False False False (concat (map render ps)) = concat (map expected ps)"
proof (induction ps rule: wellFormed.induct)
  case 1
  then show ?case by (simp add: stripFrom.simps)
next
  case (2 c ps)
  then show ?case by (simp add: strip_code)
next
  case (3 body ps)
  then show ?case by (simp add: normal_quote strip_string_body)
next
  case (4 body ps)
  have opened: "stripFrom False False False False (''//'' @ body @ concat (map render ps)) =
          stripFrom False True False False (concat (map render ps))"
    using 4(2) by (simp add: normal_line strip_line_body)
  show ?case
  proof (cases "ps = []")
    case True
    with opened show ?thesis by (simp add: stripFrom.simps)
  next
    case False
    with 4(2) obtain tail where t: "concat (map render ps) = newline # tail"
      by (auto dest: nextChar_Some)
    have "stripFrom False True False False (newline # tail) =
            stripFrom False False False False (newline # tail)"
      unfolding line_end
      by (rule normal_step[symmetric]) (auto simp: special_chars special_chars[symmetric])
    with opened t 4 show ?thesis by simp
  qed
next
  case (5 body ps)
  then show ?case by (simp add: normal_block strip_block_body)
next
  case (6 body ps)
  then show ?case by (simp add: normal_quote strip_open_body)
next
  case (7 body ps)
  then show ?case by (simp add: normal_block strip_open_block)
qed

subsection \<open>A match consumes a word of the pattern's language\<close>

lemma repeatMatcher_word:
  assumes m: "\<And>x k z. m x k = Some z \<Longrightarrow> \<exists>y w. k y = Some z \<and> rest x = w @ rest y \<and> w \<in> A"
  shows "repeatMatcher n m x k = Some z \<Longrightarrow>
         \<exists>y w. k y = Some z \<and> rest x = w @ rest y \<and> w \<in> star A"
proof (induction n arbitrary: x z)
  case 0
  then have "k x = Some z \<and> rest x = [] @ rest x \<and> [] \<in> star A"
    by (simp add: star_nil)
  then show ?case by blast
next
  case (Suc n)
  let ?k = "\<lambda>y. if endIndex y = endIndex x then None else repeatMatcher n m y k"
  show ?case
  proof (cases "m x ?k")
    case None
    with Suc.prems have "k x = Some z \<and> rest x = [] @ rest x \<and> [] \<in> star A"
      by (simp add: star_nil)
    then show ?thesis by blast
  next
    case (Some r)
    with Suc.prems have "m x ?k = Some z" by simp
    from m[OF this] obtain y w where y: "?k y = Some z" "rest x = w @ rest y" "w \<in> A" by blast
    then have "repeatMatcher n m y k = Some z" by (simp split: if_splits)
    from Suc.IH[OF this] obtain y' w' where y': "k y' = Some z" "rest y = w' @ rest y'"
      "w' \<in> star A" by blast
    from y(2,3) y'(2,3) have "rest x = (w @ w') @ rest y' \<and> w @ w' \<in> star A"
      by (simp add: star_step)
    with y'(1) show ?thesis by blast
  qed
qed

lemma rmatch_word:
  "rmatch r x k = Some z \<Longrightarrow> \<exists>y w. k y = Some z \<and> rest x = w @ rest y \<and> w \<in> lang r"
proof (induction r arbitrary: x k z)
  case (Cls P)
  then obtain c cs where c: "rest x = c # cs" "P c"
    "k (x\<lparr>prevChar := Some c, rest := cs, endIndex := endIndex x + 1\<rparr>) = Some z"
    by (auto split: list.splits if_splits)
  let ?y = "x\<lparr>prevChar := Some c, rest := cs, endIndex := endIndex x + 1\<rparr>"
  from c have "k ?y = Some z \<and> rest x = [c] @ rest ?y \<and> [c] \<in> lang (Cls P)" by simp
  then show ?case by blast
next
  case WordBoundary
  then have "k x = Some z \<and> rest x = [] @ rest x \<and> [] \<in> lang WordBoundary"
    by (simp split: if_splits)
  then show ?case by blast
next
  case Eps
  then have "k x = Some z \<and> rest x = [] @ rest x \<and> [] \<in> lang Eps" by simp
  then show ?case by blast
next
  case (Seq a b)
  from Seq.prems have "rmatch a x (\<lambda>y. rmatch b y k) = Some z" by simp
  from Seq.IH(1)[OF this] obtain y w where y: "rmatch b y k = Some z" "rest x = w @ rest y"
    "w \<in> lang a" by blast
  from Seq.IH(2)[OF y(1)] obtain y' w' where y': "k y' = Some z" "rest y = w' @ rest y'"
    "w' \<in> lang b" by blast
  from y(2,3) y'(2,3) have "rest x = (w @ w') @ rest y' \<and> w @ w' \<in> lang (Seq a b)"
    by auto
  with y'(1) show ?case by blast
next
  case (Alt a b)
  show ?case
  proof (cases "rmatch a x k")
    case None
    with Alt.prems have "rmatch b x k = Some z" by simp
    from Alt.IH(2)[OF this] show ?thesis by auto
  next
    case (Some r)
    with Alt.prems have "rmatch a x k = Some z" by simp
    from Alt.IH(1)[OF this] show ?thesis by auto
  qed
next
  case (Star a)
  from repeatMatcher_word[of "rmatch a" "lang a", OF Star.IH] Star.prems show ?case by simp
next
  case (Group n a)
  let ?k = "\<lambda>y. k (y\<lparr>captures := (captures y)(n \<mapsto> take (endIndex y - endIndex x) (rest x))\<rparr>)"
  from Group.prems have "rmatch a x ?k = Some z" by simp
  from Group.IH[OF this] obtain y w where y: "?k y = Some z" "rest x = w @ rest y" "w \<in> lang a"
    by blast
  let ?y = "y\<lparr>captures := (captures y)(n \<mapsto> take (endIndex y - endIndex x) (rest x))\<rparr>"
  from y have "k ?y = Some z \<and> rest x = w @ rest ?y \<and> w \<in> lang (Group n a)" by simp
  then show ?case by blast
qed

lemma execAt_word: "execAt r x = Some m \<Longrightarrow> \<exists>w. rest x = w @ rest m \<and> w \<in> lang r"
proof -
  assume "execAt r x = Some m"
  then have "rmatch (Group 0 r) (x\<lparr>captures := Map.empty\<rparr>) Some = Some m"
    by (simp add: execAt_def)
  from rmatch_word[OF this] show ?thesis by auto
qed

lemma firstMatch_word:
  "firstMatch r b s i = Some (j, m) \<Longrightarrow> \<exists>pre w. s = pre @ w @ rest m \<and> w \<in> lang r"
proof (induction s arbitrary: b i)
  case Nil
  then have "execAt r \<lparr>prevChar = b, rest = [], endIndex = i, captures = Map.empty\<rparr> = Some m"
    by (auto split: option.splits)
  from execAt_word[OF this] obtain w where "[] = w @ rest m" "w \<in> lang r" by auto
  then have "[] = [] @ w @ rest m \<and> w \<in> lang r" by simp
  then show ?case by blast
next
  case (Cons c cs)
  show ?case
  proof (cases "execAt r \<lparr>prevChar = b, rest = c # cs, endIndex = i, captures = Map.empty\<rparr>")
    case None
    with Cons.prems have "firstMatch r (Some c) cs (i + 1) = Some (j, m)" by simp
    from Cons.IH[OF this] obtain pre w where "cs = pre @ w @ rest m" "w \<in> lang r" by blast
    then have "c # cs = (c # pre) @ w @ rest m \<and> w \<in> lang r" by simp
    then show ?thesis by blast
  next
    case (Some m')
    with Cons.prems have "m' = m" by auto
    with Some obtain w where "c # cs = w @ rest m" "w \<in> lang r"
      by (auto dest!: execAt_word)
    then have "c # cs = [] @ w @ rest m \<and> w \<in> lang r" by simp
    then show ?thesis by blast
  qed
qed

lemma no_word_no_match:
  assumes "\<And>pre w post. s = pre @ w @ post \<Longrightarrow> w \<notin> lang r"
  shows "matchLoop r (startOf s) = Some []"
proof -
  have "exec r (startOf s) = None"
  proof (cases "exec r (startOf s)")
    case None
    then show ?thesis .
  next
    case (Some jm)
    obtain j m where "jm = (j, m)" by (cases jm)
    with Some firstMatch_word[of r None s 0 j m] assms show ?thesis
      by (auto simp: exec_def startOf_def)
  qed
  then show ?thesis unfolding matchLoop.simps[of r "startOf s"] by simp
qed

subsection \<open>The words of the import pattern\<close>

lemma lang_seqs_Nil: "lang (seqs []) = {[]}"
  by (simp add: seqs_def)

lemma lang_seqs_Cons: "lang (seqs (r # rs)) = {u @ v | u v. u \<in> lang r \<and> v \<in> lang (seqs rs)}"
  by (simp add: seqs_def)

lemma lang_seqs_append:
  "w \<in> lang (seqs (as @ bs)) \<Longrightarrow> \<exists>u v. w = u @ v \<and> u \<in> lang (seqs as) \<and> v \<in> lang (seqs bs)"
proof (induction as arbitrary: w)
  case Nil
  then show ?case by (simp add: lang_seqs_Nil)
next
  case (Cons a as)
  from Cons.prems obtain u v where uv: "w = u @ v" "u \<in> lang a" "v \<in> lang (seqs (as @ bs))"
    by (auto simp: lang_seqs_Cons)
  from Cons.IH[OF uv(3)] obtain u' v' where u'v': "v = u' @ v'" "u' \<in> lang (seqs as)"
    "v' \<in> lang (seqs bs)" by blast
  from uv(1,2) u'v' have "w = (u @ u') @ v' \<and> u @ u' \<in> lang (seqs (a # as)) \<and> v' \<in> lang (seqs bs)"
    by (auto simp: lang_seqs_Cons)
  then show ?case by blast
qed

lemma lang_chr: "lang (chr c) = {[c]}"
  by (simp add: chr_def)

lemma seqs_contains: "chr c \<in> set rs \<Longrightarrow> w \<in> lang (seqs rs) \<Longrightarrow> c \<in> set w"
proof (induction rs arbitrary: w)
  case Nil
  then show ?case by simp
next
  case (Cons r rs)
  from Cons.prems(2) obtain u v where uv: "w = u @ v" "u \<in> lang r" "v \<in> lang (seqs rs)"
    by (auto simp: lang_seqs_Cons)
  show ?case
  proof (cases "chr c = r")
    case True
    with uv show ?thesis by (auto simp: lang_chr)
  next
    case False
    with Cons.prems(1) have "chr c \<in> set rs" by auto
    from Cons.IH[OF this uv(3)] uv(1) show ?thesis by simp
  qed
qed

lemma star_class: "w \<in> star (lang (Cls P)) \<Longrightarrow> \<forall>c\<in>set w. P c"
  by (induction rule: star.induct) auto

lemma importPattern_split:
  "importPattern = seqs
     ([WordBoundary, Opt (Group 1 (seqs [lit ''export'', Plus space])), lit ''import'', Star space,
       chr (CHR ''(''), Star space, lit ''path'', Star space, chr (CHR '':''), Star space,
       chr dquote, Group 2 (Plus (Cls (\<lambda>c. c \<noteq> dquote))), chr dquote, Star space,
       chr (CHR '',''), Star space, lit ''version'', Star space] @
      [chr (CHR '':''), Star space, chr dquote] @
      [Star (Cls (\<lambda>c. c \<noteq> dquote)), chr dquote, Star space, chr (CHR '')''),
       Star space, chr (CHR '';'')])"
  by (simp add: importPattern_def)

lemma import_word:
  assumes "w \<in> lang importPattern"
  shows "\<exists>X Y. w = X @ dquote # Y \<and> dquote \<in> set X \<and> dquote \<in> set Y \<and> X \<noteq> [] \<and>
               (last X = CHR '':'' \<or> isSpace (last X))"
proof -
  let ?front = "[WordBoundary, Opt (Group 1 (seqs [lit ''export'', Plus space])), lit ''import'',
       Star space, chr (CHR ''(''), Star space, lit ''path'', Star space, chr (CHR '':''),
       Star space, chr dquote, Group 2 (Plus (Cls (\<lambda>c. c \<noteq> dquote))), chr dquote, Star space,
       chr (CHR '',''), Star space, lit ''version'', Star space]"
  let ?mid = "[chr (CHR '':''), Star space, chr dquote]"
  let ?behind = "[Star (Cls (\<lambda>c. c \<noteq> dquote)), chr dquote, Star space, chr (CHR '')''),
       Star space, chr (CHR '';'')]"
  from assms have "w \<in> lang (seqs (?front @ ?mid @ ?behind))"
    unfolding importPattern_split .
  from lang_seqs_append[OF this] obtain f v where fv: "w = f @ v" "f \<in> lang (seqs ?front)"
    "v \<in> lang (seqs (?mid @ ?behind))" by blast
  from lang_seqs_append[OF fv(3)] obtain m b where mb: "v = m @ b" "m \<in> lang (seqs ?mid)"
    "b \<in> lang (seqs ?behind)" by blast
  have qf: "dquote \<in> set f" by (rule seqs_contains[OF _ fv(2)]) simp
  have qb: "dquote \<in> set b" by (rule seqs_contains[OF _ mb(3)]) simp
  from mb(2) obtain S where S: "m = CHR '':'' # S @ [dquote]" "S \<in> star (lang space)"
    by (auto simp: lang_seqs_Cons lang_seqs_Nil lang_chr)
  from S(2) have sp: "\<forall>c\<in>set S. isSpace c" unfolding space_def by (rule star_class)
  let ?X = "f @ CHR '':'' # S"
  have "last ?X = CHR '':'' \<or> isSpace (last ?X)"
  proof (cases "S = []")
    case True
    then show ?thesis by simp
  next
    case False
    then have "last S \<in> set S" by simp
    with sp False show ?thesis by simp
  qed
  with fv(1) mb(1) S(1) qf qb
  have "w = ?X @ dquote # b \<and> dquote \<in> set ?X \<and> dquote \<in> set b \<and> ?X \<noteq> [] \<and>
        (last ?X = CHR '':'' \<or> isSpace (last ?X))" by simp
  then show ?thesis by blast
qed

subsection \<open>A lone string literal holds no import\<close>

lemma stringBody_quote:
  "stringBody b \<Longrightarrow> b = u @ dquote # v \<Longrightarrow> u \<noteq> [] \<and> last u = backslash"
proof (induction b arbitrary: u rule: stringBody.induct)
  case 1
  then show ?case by simp
next
  case (2 c cs)
  show ?case
  proof (cases "c = backslash")
    case True
    with "2.prems"(1) obtain d cs' where cs: "cs = d # cs'" "stringBody cs'"
      by (auto split: list.splits)
    from True "2.prems"(2) special_chars obtain u1 where u1: "u = c # u1" "cs = u1 @ dquote # v"
      by (cases u) auto
    show ?thesis
    proof (cases u1)
      case Nil
      with u1 True show ?thesis by simp
    next
      case (Cons e u2)
      with u1 cs have "cs' = u2 @ dquote # v" by simp
      from "2.IH"(1)[OF True cs(1) cs(2) this] u1 Cons show ?thesis by simp
    qed
  next
    case False
    with "2.prems"(1) have c: "c \<noteq> dquote" "stringBody cs" by auto
    from c(1) "2.prems"(2) obtain u1 where u1: "u = c # u1" "cs = u1 @ dquote # v"
      by (cases u) auto
    from "2.IH"(2)[OF False c(2) u1(2)] u1(1) show ?thesis by simp
  qed
qed

lemma first_quote:
  assumes "dquote \<notin> set pre" "pre @ dquote # tail = X @ dquote # Y"
  shows "(X = pre \<and> Y = tail) \<or> (\<exists>X'. X = pre @ dquote # X' \<and> tail = X' @ dquote # Y)"
proof -
  from assms(2) obtain us where
    "(pre = X @ us \<and> us @ dquote # tail = dquote # Y) \<or>
     (pre @ us = X \<and> dquote # tail = us @ dquote # Y)"
    by (auto simp: append_eq_append_conv2)
  then show ?thesis
  proof
    assume a: "pre = X @ us \<and> us @ dquote # tail = dquote # Y"
    show ?thesis
    proof (cases us)
      case Nil
      with a show ?thesis by simp
    next
      case (Cons e us')
      with a assms(1) show ?thesis by auto
    qed
  next
    assume a: "pre @ us = X \<and> dquote # tail = us @ dquote # Y"
    show ?thesis
    proof (cases us)
      case Nil
      with a show ?thesis by simp
    next
      case (Cons e us')
      with a show ?thesis by auto
    qed
  qed
qed

lemma lone_literal:
  assumes pre: "dquote \<notin> set pre" and body: "stringBody b" and post: "dquote \<notin> set post"
    and eq: "pre @ dquote # b @ dquote # post = X @ dquote # Y"
    and X: "dquote \<in> set X" "last X \<noteq> backslash" and Y: "dquote \<in> set Y"
  shows False
proof -
  from first_quote[OF pre eq] X(1) pre obtain X' where X': "X = pre @ dquote # X'"
    "b @ dquote # post = X' @ dquote # Y" by auto
  from X'(2) obtain us where
    "(b = X' @ us \<and> us @ dquote # post = dquote # Y) \<or>
     (b @ us = X' \<and> dquote # post = us @ dquote # Y)"
    by (auto simp: append_eq_append_conv2)
  then show False
  proof
    assume a: "b = X' @ us \<and> us @ dquote # post = dquote # Y"
    show False
    proof (cases us)
      case Nil
      with a Y post show False by simp
    next
      case (Cons e us')
      with a have "b = X' @ dquote # us'" by simp
      from stringBody_quote[OF body this] X'(1) X(2) show False by simp
    qed
  next
    assume a: "b @ us = X' \<and> dquote # post = us @ dquote # Y"
    show False
    proof (cases us)
      case Nil
      with a Y post show False by simp
    next
      case (Cons e us')
      with a post show False by auto
    qed
  qed
qed

lemma separator_chars: "CHR '':'' \<noteq> backslash" "\<not> isSpace backslash"
  by (simp_all add: backslash_def isSpace_def)

lemma parseImports_nothing:
  assumes "\<And>pre w post. s = pre @ w @ post \<Longrightarrow> w \<notin> lang importPattern"
  shows "parseImports s = Inr ([], [])"
  using no_word_no_match[of s importPattern, OF assms] by (simp add: parseImports_def)

lemma no_quote_no_import:
  assumes "dquote \<notin> set s"
  shows "parseImports s = Inr ([], [])"
proof (rule parseImports_nothing)
  fix pre w post
  assume s: "s = pre @ w @ post"
  show "w \<notin> lang importPattern"
  proof
    assume "w \<in> lang importPattern"
    from import_word[OF this] s assms show False by auto
  qed
qed

lemma lone_literal_no_import:
  assumes pre: "dquote \<notin> set pre" and body: "stringBody b" and post: "dquote \<notin> set post"
  shows "parseImports (pre @ dquote # b @ dquote # post) = Inr ([], [])"
proof (rule parseImports_nothing)
  fix l w r
  assume s: "pre @ dquote # b @ dquote # post = l @ w @ r"
  show "w \<notin> lang importPattern"
  proof
    assume "w \<in> lang importPattern"
    from import_word[OF this] obtain X Y where w: "w = X @ dquote # Y" "dquote \<in> set X"
      "dquote \<in> set Y" "X \<noteq> []" "last X = CHR '':'' \<or> isSpace (last X)" by blast
    from s w(1) have eq: "pre @ dquote # b @ dquote # post = (l @ X) @ dquote # (Y @ r)" by simp
    from w(4,5) separator_chars have "last (l @ X) \<noteq> backslash" by auto
    from lone_literal[OF pre body post eq _ this] w(2,3) show False by simp
  qed
qed

subsection \<open>Every source is a sequence of pieces\<close>

lemma string_split: "(\<exists>b r. t = b @ dquote # r \<and> stringBody b) \<or> openBody t"
proof (induction t rule: openBody.induct)
  case 1
  then show ?case by simp
next
  case (2 c cs)
  show ?case
  proof (cases "c = backslash")
    case True
    show ?thesis
    proof (cases cs)
      case Nil
      with True show ?thesis by simp
    next
      case (Cons d cs')
      from "2.IH"(1)[OF True Cons] show ?thesis
      proof
        assume "\<exists>b r. cs' = b @ dquote # r \<and> stringBody b"
        then obtain b r where "cs' = b @ dquote # r" "stringBody b" by blast
        with True Cons have "c # cs = (c # d # b) @ dquote # r \<and> stringBody (c # d # b)"
          by simp
        then show ?thesis by blast
      next
        assume "openBody cs'"
        with True Cons show ?thesis by simp
      qed
    qed
  next
    case False
    show ?thesis
    proof (cases "c = dquote")
      case True
      then have "c # cs = [] @ dquote # cs \<and> stringBody []" by simp
      then show ?thesis by blast
    next
      case nq: False
      from "2.IH"(2)[OF False] show ?thesis
      proof
        assume "\<exists>b r. cs = b @ dquote # r \<and> stringBody b"
        then obtain b r where "cs = b @ dquote # r" "stringBody b" by blast
        with False nq have "c # cs = (c # b) @ dquote # r \<and> stringBody (c # b)" by simp
        then show ?thesis by blast
      next
        assume "openBody cs"
        with False nq show ?thesis by simp
      qed
    qed
  qed
qed

lemma noClose_Cons: "noClose (b # cs) \<Longrightarrow> \<not> (a = CHR ''*'' \<and> b = CHR ''/'') \<Longrightarrow> noClose (a # b # cs)"
  by simp

lemma block_split:
  "(\<exists>b r. t = b @ CHR ''*'' # CHR ''/'' # r \<and> noClose b) \<or> noClose t"
proof (induction t rule: noClose.induct)
  case (1 a b cs)
  show ?case
  proof (cases "a = CHR ''*'' \<and> b = CHR ''/''")
    case True
    then have "a # b # cs = [] @ CHR ''*'' # CHR ''/'' # cs \<and> noClose []" by simp
    then show ?thesis by blast
  next
    case False
    from "1.IH" show ?thesis
    proof
      assume "\<exists>b' r. b # cs = b' @ CHR ''*'' # CHR ''/'' # r \<and> noClose b'"
      then obtain b' r where b': "b # cs = b' @ CHR ''*'' # CHR ''/'' # r" "noClose b'" by blast
      have "noClose (a # b')"
      proof (cases b')
        case Nil
        then show ?thesis by simp
      next
        case (Cons x xs)
        with b' False show ?thesis by simp
      qed
      with b'(1) have "a # b # cs = (a # b') @ CHR ''*'' # CHR ''/'' # r \<and> noClose (a # b')"
        by simp
      then show ?thesis by blast
    next
      assume "noClose (b # cs)"
      with False show ?thesis by simp
    qed
  qed
next
  case 3
  then show ?case by simp
next
  case (2 v)
  then show ?case by simp
qed

lemma pieces_exist: "\<exists>ps. wellFormed ps \<and> concat (map render ps) = source"
proof (induction "length source" arbitrary: source rule: less_induct)
  case less
  show ?case
  proof (cases source)
    case Nil
    then have "wellFormed [] \<and> concat (map render []) = source" by simp
    then show ?thesis by blast
  next
    case (Cons c t)
    consider (quote) "c = dquote"
      | (line) "c = CHR ''/''" "nextChar t = Some (CHR ''/'')"
      | (block) "c = CHR ''/''" "nextChar t = Some (CHR ''*'')"
      | (code) "c \<noteq> dquote"
          "\<not> (c = CHR ''/'' \<and> (nextChar t = Some (CHR ''/'') \<or> nextChar t = Some (CHR ''*'')))"
      by blast
    then show ?thesis
    proof cases
      case quote
      from string_split[of t] show ?thesis
      proof
        assume "\<exists>b r. t = b @ dquote # r \<and> stringBody b"
        then obtain b r where b: "t = b @ dquote # r" "stringBody b" by blast
        with Cons have "length r < length source" by simp
        from less[OF this] obtain ps where "wellFormed ps" "concat (map render ps) = r" by blast
        with b Cons quote
        have "wellFormed (StringLit b # ps) \<and> concat (map render (StringLit b # ps)) = source"
          by simp
        then show ?thesis by blast
      next
        assume "openBody t"
        with Cons quote
        have "wellFormed [OpenString t] \<and> concat (map render [OpenString t]) = source" by simp
        then show ?thesis by blast
      qed
    next
      case line
      from line(2) obtain t' where t': "t = CHR ''/'' # t'" by (auto dest: nextChar_Some)
      let ?b = "takeWhile (\<lambda>c. c \<noteq> newline) t'"
      let ?r = "dropWhile (\<lambda>c. c \<noteq> newline) t'"
      have nb: "newline \<notin> set ?b" by (auto dest: set_takeWhileD)
      show ?thesis
      proof (cases "?r = []")
        case True
        then have "t' = ?b" by (metis takeWhile_dropWhile_id append_Nil2)
        with Cons line(1) t' nb
        have "wellFormed [LineComment ?b] \<and> concat (map render [LineComment ?b]) = source"
          by simp
        then show ?thesis by blast
      next
        case False
        have "length ?r \<le> length t'" by (rule length_dropWhile_le)
        with Cons t' have "length ?r < length source" by simp
        from less[OF this] obtain ps where ps: "wellFormed ps" "concat (map render ps) = ?r"
          by blast
        from False have "hd ?r = newline" using hd_dropWhile[of "\<lambda>c. c \<noteq> newline" t'] by auto
        with False have "nextChar ?r = Some newline" by (cases ?r) (auto simp: nextChar_def)
        with ps nb have wf: "wellFormed (LineComment ?b # ps)" by simp
        have "t' = ?b @ ?r" by simp
        with Cons line(1) t' ps(2)
        have "concat (map render (LineComment ?b # ps)) = source" by simp
        with wf show ?thesis by blast
      qed
    next
      case block
      from block(2) obtain t' where t': "t = CHR ''*'' # t'" by (auto dest: nextChar_Some)
      from block_split[of t'] show ?thesis
      proof
        assume "\<exists>b r. t' = b @ CHR ''*'' # CHR ''/'' # r \<and> noClose b"
        then obtain b r where b: "t' = b @ CHR ''*'' # CHR ''/'' # r" "noClose b" by blast
        with Cons t' have "length r < length source" by simp
        from less[OF this] obtain ps where "wellFormed ps" "concat (map render ps) = r" by blast
        with b Cons block(1) t'
        have "wellFormed (BlockComment b # ps) \<and>
              concat (map render (BlockComment b # ps)) = source" by simp
        then show ?thesis by blast
      next
        assume "noClose t'"
        with Cons block(1) t'
        have "wellFormed [OpenBlock t'] \<and> concat (map render [OpenBlock t']) = source" by simp
        then show ?thesis by blast
      qed
    next
      case code
      from Cons have "length t < length source" by simp
      from less[OF this] obtain ps where ps: "wellFormed ps" "concat (map render ps) = t" by blast
      with code Cons
      have "wellFormed (Code [c] # ps) \<and> concat (map render (Code [c] # ps)) = source" by auto
      then show ?thesis by blast
    qed
  qed
qed

subsection \<open>Where the matches lie\<close>

lemma execAt_match:
  assumes "execAt r x = Some m"
  shows "\<exists>w. rest x = w @ rest m \<and> w \<in> lang r \<and> captures m 0 = Some w \<and>
             endIndex m = endIndex x + length w"
proof -
  let ?x = "x\<lparr>captures := Map.empty\<rparr>"
  let ?k = "\<lambda>y. Some (y\<lparr>captures := (captures y)(0 \<mapsto> take (endIndex y - endIndex ?x) (rest ?x))\<rparr>)"
  from assms have "rmatch r ?x ?k = Some m" by (simp add: execAt_def)
  from rmatch_word[OF this] obtain y w where y: "?k y = Some m" "rest ?x = w @ rest y"
    "w \<in> lang r" by blast
  from y(1) have m: "rest m = rest y" "endIndex m = endIndex y"
    "captures m 0 = Some (take (endIndex y - endIndex x) (rest x))" by auto
  from execAt_advances[OF assms] have a: "endIndex x \<le> endIndex m"
    "endIndex m - endIndex x \<le> length (rest x)"
    "rest m = drop (endIndex m - endIndex x) (rest x)" by (auto simp: advances_def)
  let ?d = "endIndex m - endIndex x"
  from y(2) m(1) have w: "rest x = w @ rest m" by simp
  have "take ?d (rest x) @ rest m = rest x" using a(3) by simp
  with w have tw: "take ?d (rest x) = w" by simp
  with a(2) have "length w = ?d" by (metis length_take min.absorb2)
  with a(1) have "endIndex m = endIndex x + length w" by simp
  with w y(3) m(2,3) tw show ?thesis by auto
qed

lemma firstMatch_match:
  "firstMatch r b s i = Some (j, m) \<Longrightarrow>
   \<exists>l w. s = l @ w @ rest m \<and> w \<in> lang r \<and> captures m 0 = Some w \<and>
         endIndex m = i + length l + length w"
proof (induction s arbitrary: b i)
  case Nil
  then have "execAt r \<lparr>prevChar = b, rest = [], endIndex = i, captures = Map.empty\<rparr> = Some m"
    by (auto split: option.splits)
  from execAt_match[OF this] obtain w where "[] = w @ rest m" "w \<in> lang r"
    "captures m 0 = Some w" "endIndex m = i + length w" by auto
  then have "[] = [] @ w @ rest m \<and> w \<in> lang r \<and> captures m 0 = Some w \<and>
         endIndex m = i + length ([] :: string) + length w" by simp
  then show ?case by blast
next
  case (Cons c cs)
  show ?case
  proof (cases "execAt r \<lparr>prevChar = b, rest = c # cs, endIndex = i, captures = Map.empty\<rparr>")
    case None
    with Cons.prems have "firstMatch r (Some c) cs (i + 1) = Some (j, m)" by simp
    from Cons.IH[OF this] obtain l w where "cs = l @ w @ rest m" "w \<in> lang r"
      "captures m 0 = Some w" "endIndex m = i + 1 + length l + length w" by blast
    then have "c # cs = (c # l) @ w @ rest m \<and> w \<in> lang r \<and> captures m 0 = Some w \<and>
         endIndex m = i + length (c # l) + length w" by simp
    then show ?thesis by blast
  next
    case (Some m')
    with Cons.prems have "m' = m" by auto
    with Some have "execAt r \<lparr>prevChar = b, rest = c # cs, endIndex = i, captures = Map.empty\<rparr> = Some m"
      by simp
    from execAt_match[OF this] obtain w where "c # cs = w @ rest m" "w \<in> lang r"
      "captures m 0 = Some w" "endIndex m = i + length w" by auto
    then have "c # cs = [] @ w @ rest m \<and> w \<in> lang r \<and> captures m 0 = Some w \<and>
         endIndex m = i + length ([] :: string) + length w" by simp
    then show ?thesis by blast
  qed
qed

lemma matchLoop_match:
  "matchLoop r x = Some ms \<Longrightarrow> m \<in> set ms \<Longrightarrow>
   \<exists>l w. rest x = l @ w @ rest m \<and> w \<in> lang r \<and> captures m 0 = Some w \<and>
         endIndex m = endIndex x + length l + length w"
proof (induction r x arbitrary: ms rule: matchLoop.induct)
  case (1 r x)
  show ?case
  proof (cases "exec r x")
    case None
    with "1.prems" show ?thesis unfolding matchLoop.simps[of r x] by simp
  next
    case (Some im)
    obtain i m0 where im: "im = (i, m0)" by (cases im)
    from "1.prems"(1) Some im have lt: "endIndex x < endIndex m0"
      unfolding matchLoop.simps[of r x] by (simp split: if_splits)
    from "1.prems"(1) Some im lt obtain ms' where ms': "matchLoop r m0 = Some ms'" "ms = m0 # ms'"
      unfolding matchLoop.simps[of r x] by auto
    from Some im firstMatch_match[of r "prevChar x" "rest x" "endIndex x" i m0]
    obtain l0 w0 where f: "rest x = l0 @ w0 @ rest m0" "w0 \<in> lang r" "captures m0 0 = Some w0"
      "endIndex m0 = endIndex x + length l0 + length w0" by (auto simp: exec_def)
    show ?thesis
    proof (cases "m = m0")
      case True
      with f show ?thesis by blast
    next
      case False
      with "1.prems"(2) ms'(2) have "m \<in> set ms'" by simp
      from "1.IH"[OF Some im[symmetric] lt ms'(1) this]
      obtain l w where g: "rest m0 = l @ w @ rest m" "w \<in> lang r" "captures m 0 = Some w"
        "endIndex m = endIndex m0 + length l + length w" by blast
      from f(1,4) g have "rest x = (l0 @ w0 @ l) @ w @ rest m \<and> w \<in> lang r \<and>
         captures m 0 = Some w \<and> endIndex m = endIndex x + length (l0 @ w0 @ l) + length w"
        by simp
      then show ?thesis by blast
    qed
  qed
qed

lemma prefix_split:
  "xs @ A = ys @ B \<Longrightarrow> length xs \<le> length ys \<Longrightarrow> \<exists>zs. ys = xs @ zs \<and> A = zs @ B"
  by (auto simp: append_eq_append_conv2)

lemma no_match_in_literal:
  assumes body: "stringBody body"
    and ms: "matchLoop importPattern (startOf (pre @ dquote # body @ dquote # post)) = Some ms"
    and m: "m \<in> set ms"
  shows "\<not> (length pre \<le> matchStart m \<and> endIndex m \<le> length pre + length body + 2)"
proof
  assume inside: "length pre \<le> matchStart m \<and> endIndex m \<le> length pre + length body + 2"
  let ?lit = "dquote # body @ [dquote]"
  from matchLoop_match[OF ms m] obtain l w where
    lw: "pre @ ?lit @ post = l @ w @ rest m" "w \<in> lang importPattern" "captures m 0 = Some w"
      "endIndex m = length l + length w" by (auto simp: startOf_def)
  from lw(3,4) have "matchStart m = length l" by (simp add: matchStart_def)
  with inside lw(4) have le: "length pre \<le> length l" "length l + length w \<le> length pre + length ?lit"
    by simp_all
  from prefix_split[OF lw(1) le(1)] obtain l' where l': "l = pre @ l'"
    "?lit @ post = l' @ w @ rest m" by blast
  from l'(1) le(2) have "length (l' @ w) \<le> length ?lit" by simp
  moreover from l'(2) have "(l' @ w) @ rest m = ?lit @ post" by simp
  ultimately obtain zs where zs: "?lit = (l' @ w) @ zs" using prefix_split by blast
  from import_word[OF lw(2)] obtain X Y where w: "w = X @ dquote # Y" "dquote \<in> set X"
    "dquote \<in> set Y" "X \<noteq> []" "last X = CHR '':'' \<or> isSpace (last X)" by blast
  from zs w(1) have eq: "[] @ dquote # body @ dquote # [] = (l' @ X) @ dquote # (Y @ zs)" by simp
  from w(4,5) separator_chars have "last (l' @ X) \<noteq> backslash" by auto
  from lone_literal[OF _ body _ eq _ this] w(2,3) show False by simp
qed

subsection \<open>A source with one string literal\<close>

lemma wellFormed_parts:
  "wellFormed ps \<Longrightarrow>
   (\<forall>c. Code c \<in> set ps \<longrightarrow> plainCode c) \<and> (\<forall>b. StringLit b \<in> set ps \<longrightarrow> stringBody b)"
  by (induction ps rule: wellFormed.induct) auto

lemma plainCode_quote: "plainCode c \<Longrightarrow> dquote \<notin> set c"
  by (induction c rule: plainCode.induct) auto

lemma expected_quote_free:
  "\<forall>p \<in> set ps. \<not> isStringLit p \<and> (\<forall>c. p = Code c \<longrightarrow> plainCode c) \<Longrightarrow>
   dquote \<notin> set (concat (map expected ps))"
proof (induction ps)
  case Nil
  then show ?case by simp
next
  case (Cons p ps)
  then have "dquote \<notin> set (concat (map expected ps))" by simp
  moreover from Cons.prems have "dquote \<notin> set (expected p)"
    by (cases p) (auto dest: plainCode_quote simp: special_chars[symmetric])
  ultimately show ?case by simp
qed

lemma one_literal_no_import:
  assumes wf: "wellFormed (front @ StringLit body # behind)"
    and one: "\<forall>p \<in> set (front @ behind). \<not> isStringLit p"
  shows "parseImports (stripComments (concat (map render (front @ StringLit body # behind)))) =
           Inr ([], [])"
proof -
  from wellFormed_parts[OF wf] have parts: "\<forall>c. Code c \<in> set (front @ behind) \<longrightarrow> plainCode c"
    "stringBody body" by auto
  from one parts(1) have "dquote \<notin> set (concat (map expected front))"
    by (intro expected_quote_free) auto
  moreover from one parts(1) have "dquote \<notin> set (concat (map expected behind))"
    by (intro expected_quote_free) auto
  moreover have "stripComments (concat (map render (front @ StringLit body # behind))) =
      concat (map expected front) @ dquote # body @ dquote # concat (map expected behind)"
    unfolding stripComments_def strip_pieces[OF wf] by simp
  ultimately show ?thesis using lone_literal_no_import[OF _ parts(2)] by simp
qed

subsection \<open>File ids\<close>

lemma parseFile_id: "parseFile entry = Inr f \<Longrightarrow> pf_id f = toPosixRelative (fst entry)"
  by (auto simp: parseFile_def Let_def split: sum.splits)

lemma parseFiles_ids:
  "parseFiles tree = Inr files \<Longrightarrow> map pf_id files = map (\<lambda>entry. toPosixRelative (fst entry)) tree"
proof (induction tree arbitrary: files)
  case Nil
  then show ?case by simp
next
  case (Cons entry tree)
  from Cons.prems obtain f fs where f: "parseFile entry = Inr f" "parseFiles tree = Inr fs"
    "files = f # fs" by (auto split: sum.splits)
  from Cons.IH[OF f(2)] parseFile_id[OF f(1)] f(3) show ?case by simp
qed

lemma set_collapseSlashes: "set (collapseSlashes v) \<subseteq> set v"
  by (induction v rule: collapseSlashes.induct) auto

lemma set_stripLeadingDotSlash: "set (stripLeadingDotSlash v) \<subseteq> set v"
proof (cases v rule: stripLeadingDotSlash.cases)
  case (1 a b tail)
  then show ?thesis using set_dropWhileD[of _ "\<lambda>c. c = CHR ''/''" tail] by auto
qed simp_all

lemma normalizePath_nul: "CHR 0x00 \<notin> set p \<Longrightarrow> CHR 0x00 \<notin> set (normalizePath p)"
proof -
  assume p: "CHR 0x00 \<notin> set p"
  then have "CHR 0x00 \<notin> set (replaceBackslashes p)"
    by (auto simp: replaceBackslashes_def)
  with set_stripLeadingDotSlash[of "replaceBackslashes p"]
    set_collapseSlashes[of "stripLeadingDotSlash (replaceBackslashes p)"]
  show ?thesis unfolding normalizePath_def by blast
qed

lemma nulFree_parsed:
  assumes "parseFiles tree = Inr files" "\<forall>entry \<in> set tree. CHR 0x00 \<notin> set (fst entry)"
  shows "nulFree files"
proof -
  have "\<forall>i \<in> set (map pf_id files). CHR 0x00 \<notin> set i"
    unfolding parseFiles_ids[OF assms(1)] using assms(2)
    by (auto simp: toPosixRelative_def dest: normalizePath_nul)
  then show ?thesis by (simp add: nulFree_def list_all_iff)
qed

lemma collapseSlashes_single: "singleSlashes p \<Longrightarrow> collapseSlashes p = p"
  by (induction p rule: singleSlashes.induct) auto

lemma stripLeadingDotSlash_plain: "take 2 p \<noteq> ''./'' \<Longrightarrow> stripLeadingDotSlash p = p"
  by (cases p rule: stripLeadingDotSlash.cases) auto

lemma normalizePath_plain: "plainPath p \<Longrightarrow> normalizePath p = p"
proof -
  assume p: "plainPath p"
  then have "replaceBackslashes p = p"
    unfolding replaceBackslashes_def plainPath_def by (intro map_idI) auto
  with p show ?thesis
    by (simp add: normalizePath_def plainPath_def stripLeadingDotSlash_plain collapseSlashes_single)
qed

lemma plain_ids_distinct:
  assumes "distinct (map fst tree)" "\<forall>entry \<in> set tree. plainPath (fst entry)"
  shows "distinct (map (\<lambda>entry. toPosixRelative (fst entry)) tree)"
proof -
  have e: "map (\<lambda>entry. toPosixRelative (fst entry)) tree = map fst tree"
    using assms(2) by (intro map_cong) (auto simp: toPosixRelative_def normalizePath_plain)
  show ?thesis unfolding e by (rule assms(1))
qed

lemma node_ids_distinct_iff:
  "distinct (map n_id (g_nodes (assembleGraph collate files))) \<longleftrightarrow> distinct (map pf_id files)"
proof -
  note vp = virtualNodesOf_props[of files, THEN conjunct1]
  have ids: "map n_id (fileNodes collate files) = map pf_id files"
    by (simp add: fileNodes_def fileNode_id)
  have vids: "map n_id (map snd (virtualNodesOf files)) = map fst (virtualNodesOf files)"
    using virtual_values(1)[OF vp] by simp
  have disj: "set (map pf_id files) \<inter> set (map fst (virtualNodesOf files)) = {}"
    using virtual_entry(2)[OF vp] by fastforce
  have "distinct (map n_id (fileNodes collate files @ map snd (virtualNodesOf files))) \<longleftrightarrow>
        distinct (map pf_id files)"
    using vp disj unfolding map_append ids vids by (simp add: virtualInv_def)
  then show ?thesis unfolding assembleGraph_nodes distinct_map_sortBy .
qed

section \<open>The claims\<close>

text \<open>
  Claim C1, as the code has it. Edge identifiers are the letter e and a decimal number,
  numbered from 1 in the order in which the edges are first discovered (the first
  occurrences of the declarations' keys, file by file); they are assigned when the edge is
  created. The final edge list is the list of discovered edges sorted by the identifier
  compared as a string. With at most nine edges that sort changes nothing: position \<open>k\<close>
  holds the edge \<open>e(k+1)\<close> and the edges stand in discovery order. The comparison is the
  one by code units, which orders these identifiers as the collation of the runtime does.
\<close>

theorem edge_ids_follow_discovery:
  "map e_id (discoveredEdges files) = edgeIds (length (discoveredEdges files)) \<and>
   map edgeKeyOf (discoveredEdges files) =
     firstOccurrences {}
       (map (\<lambda>d. tripleKey (declTriple (buildSuffixIndex files) d)) (declarations files)) \<and>
   g_edges (assembleGraph localeCompare files) =
     sortBy (\<lambda>a b. localeCompare (e_id a) (e_id b)) (discoveredEdges files) \<and>
   sorted_wrt (\<lambda>a b. localeCompare (e_id a) (e_id b) \<le> 0) (g_edges (assembleGraph localeCompare files)) \<and>
   (length (discoveredEdges files) \<le> 9 \<longrightarrow>
      g_edges (assembleGraph localeCompare files) = discoveredEdges files)"
proof -
  note k = discoveredEdges_keys[of files]
  have "g_edges (assembleGraph localeCompare files) = discoveredEdges files"
    if "length (discoveredEdges files) \<le> 9"
  proof -
    have "sorted_wrt (\<lambda>a b. localeCompare a b \<le> 0) (map e_id (discoveredEdges files))"
      using k edgeIds_sorted[OF that] by simp
    then have "sorted_wrt (\<lambda>a b. localeCompare (e_id a) (e_id b) \<le> 0) (discoveredEdges files)"
      by (simp add: sorted_wrt_map)
    then show ?thesis unfolding assembleGraph_edges by (rule sortBy_sorted)
  qed
  with k edges_sorted_by_id[of files] assembleGraph_edges[of localeCompare files] show ?thesis by blast
qed

theorem edge_ids_follow_discovery_witness:
  "length (discoveredEdges threeEdges) \<le> 9 \<and>
   map e_id (g_edges (assembleGraph localeCompare threeEdges)) = [''e1'', ''e2'', ''e3''] \<and>
   map edgeTriple (g_edges (assembleGraph localeCompare threeEdges)) =
     [(Import, ''app.fs'', ''lib/util.fs''), (Import, ''app.fs'', ''missing.fs''),
      (Reexport, ''app.fs'', ''lib/util.fs'')]"
proof -
  have len: "length (discoveredEdges threeEdges) \<le> 9" by code_simp
  have ids: "map e_id (discoveredEdges threeEdges) = [''e1'', ''e2'', ''e3'']" by code_simp
  have ts: "map edgeTriple (discoveredEdges threeEdges) =
     [(Import, ''app.fs'', ''lib/util.fs''), (Import, ''app.fs'', ''missing.fs''),
      (Reexport, ''app.fs'', ''lib/util.fs'')]" by code_simp
  from edge_ids_follow_discovery[of threeEdges] len
  have "g_edges (assembleGraph localeCompare threeEdges) = discoveredEdges threeEdges" by blast
  with len ids ts show ?thesis by simp
qed

theorem edge_position_counterexample:
  "map e_id (g_edges (assembleGraph localeCompare tenImports)) ! 1 = ''e10'' \<and>
   e_target (g_edges (assembleGraph localeCompare tenImports) ! 1) = ''m9'' \<and>
   e_target (discoveredEdges tenImports ! 1) = ''m1''"
  by code_simp

text \<open>
  Claim C3. Resolution of a declared path is the same for every two orderings of the
  same files: the suffix index built over a permutation of the files resolves every
  path to the same result.
\<close>

theorem resolution_ignores_file_order:
  "mset files = mset files' \<Longrightarrow>
   resolveModuleTarget declared (buildSuffixIndex files) =
   resolveModuleTarget declared (buildSuffixIndex files')"
  by (rule resolve_permutation)

theorem resolution_ignores_file_order_witness:
  "mset twoTails = mset (rev twoTails) \<and>
   resolveModuleTarget ''a/b/c.ext'' (buildSuffixIndex twoTails) = Some ''a/b/c.ext'' \<and>
   resolveModuleTarget ''a/b/c.ext'' (buildSuffixIndex (rev twoTails)) = Some ''a/b/c.ext''"
proof -
  have m: "mset twoTails = mset (rev twoTails)" by simp
  have r: "resolveModuleTarget ''a/b/c.ext'' (buildSuffixIndex twoTails) = Some ''a/b/c.ext''"
    by code_simp
  from resolution_ignores_file_order[OF m, of "''a/b/c.ext''"] m r show ?thesis by simp
qed

text \<open>
  Claim C2, as the code has it. Resolution looks the normalized path up in the suffix
  index and returns the target when exactly one file registered that string; otherwise
  it tries the path without its first segment, then without its first two, and so on,
  and returns the first attempt with exactly one registrant; when no attempt has exactly
  one, resolution fails and the declared path itself is the target identifier. That
  identifier is the id of a virtual node exactly when it is not the id of an indexed file.
  With the files \<open>a/b/c.ext\<close> and \<open>x/b/c.ext\<close>, \<open>b/c.ext\<close> resolves to neither and
  becomes a virtual node, and \<open>a/b/c.ext\<close> resolves to \<open>a/b/c.ext\<close>.
\<close>

theorem resolution_by_shorter_suffixes:
  "resolveModuleTarget declared (buildSuffixIndex files) =
     (case find (\<lambda>s. length (registrants files s) = 1) (attempts declared) of
        None \<Rightarrow> None
      | Some s \<Rightarrow> Some (hd (registrants files s))) \<and>
   (\<forall>d \<in> set (declarations files).
      resolveModuleTarget (snd (snd d)) (buildSuffixIndex files) = None \<longrightarrow>
        declTarget (buildSuffixIndex files) d = snd (snd d) \<and>
        ((\<exists>n \<in> set (g_nodes (assembleGraph collate files)). n_id n = snd (snd d) \<and> n_isVirtual n) \<longleftrightarrow>
           snd (snd d) \<notin> set (map pf_id files))) \<and>
   resolveModuleTarget ''b/c.ext'' (buildSuffixIndex twoTails) = None \<and>
   resolveModuleTarget ''a/b/c.ext'' (buildSuffixIndex twoTails) = Some ''a/b/c.ext'' \<and>
   map (\<lambda>n. (n_id n, n_isVirtual n)) (g_nodes (assembleGraph localeCompare twoTails)) =
     [(''a/b/c.ext'', False), (''b/c.ext'', True), (''x/b/c.ext'', False)]"
proof -
  have general: "declTarget (buildSuffixIndex files) d = snd (snd d) \<and>
        ((\<exists>n \<in> set (g_nodes (assembleGraph collate files)). n_id n = snd (snd d) \<and> n_isVirtual n) \<longleftrightarrow>
           snd (snd d) \<notin> set (map pf_id files))"
    if d: "d \<in> set (declarations files)"
      and u: "resolveModuleTarget (snd (snd d)) (buildSuffixIndex files) = None" for d
  proof -
    note t = declTarget_unresolved[OF u]
    have "\<exists>d' \<in> set (declarations files). declTarget (buildSuffixIndex files) d' = snd (snd d)"
      using d t by blast
    with t show ?thesis unfolding virtual_node_iff by simp
  qed
  have e1: "resolveModuleTarget ''b/c.ext'' (buildSuffixIndex twoTails) = None" by code_simp
  have e2: "resolveModuleTarget ''a/b/c.ext'' (buildSuffixIndex twoTails) = Some ''a/b/c.ext''"
    by code_simp
  have e3: "map (\<lambda>n. (n_id n, n_isVirtual n)) (g_nodes (assembleGraph localeCompare twoTails)) =
     [(''a/b/c.ext'', False), (''b/c.ext'', True), (''x/b/c.ext'', False)]" by code_simp
  from general resolve_attempts[of declared files] e1 e2 e3 show ?thesis by blast
qed

theorem resolution_by_shorter_suffixes_witness:
  "(parsedFile ''x/b/c.ext'' [''b/c.ext'', ''a/b/c.ext''] [] [] [], Import, ''b/c.ext'')
     \<in> set (declarations twoTails) \<and>
   resolveModuleTarget ''b/c.ext'' (buildSuffixIndex twoTails) = None \<and>
   ''b/c.ext'' \<notin> set (map pf_id twoTails) \<and>
   (\<exists>n \<in> set (g_nodes (assembleGraph localeCompare twoTails)). n_id n = ''b/c.ext'' \<and> n_isVirtual n)"
proof -
  let ?d = "(parsedFile ''x/b/c.ext'' [''b/c.ext'', ''a/b/c.ext''] [] [] [], Import, ''b/c.ext'')"
  have d: "?d \<in> set (declarations twoTails)"
    by (simp add: declarations_def twoTails_def parsedFile_def)
  have u: "resolveModuleTarget (snd (snd ?d)) (buildSuffixIndex twoTails) = None" by code_simp
  have n: "''b/c.ext'' \<notin> set (map pf_id twoTails)"
    by (simp add: twoTails_def parsedFile_def)
  from resolution_by_shorter_suffixes[of "''b/c.ext''" twoTails] d u n
  have "\<exists>n \<in> set (g_nodes (assembleGraph localeCompare twoTails)). n_id n = ''b/c.ext'' \<and> n_isVirtual n"
    by fastforce
  with d u n show ?thesis by simp
qed

theorem unresolved_path_counterexample:
  "resolveModuleTarget ''b/c.fs'' (buildSuffixIndex shadowedPath) = None \<and>
   map (\<lambda>s. length (registrants shadowedPath s)) (attempts ''b/c.fs'') = [2, 2] \<and>
   map (\<lambda>n. (n_id n, n_isVirtual n)) (g_nodes (assembleGraph localeCompare shadowedPath)) =
     [(''a/b/c.fs'', False), (''b/c.fs'', False)] \<and>
   map edgeTriple (g_edges (assembleGraph localeCompare shadowedPath)) = [(Import, ''a/b/c.fs'', ''b/c.fs'')]"
  by code_simp

text \<open>
  Claim C8. The virtual nodes of the output have pairwise distinct ids. Each virtual
  node's id is a declared path that failed resolution and is not the id of a file; its
  path field is the sentinel \<open>(unresolved module)\<close> and its import, export and symbol
  data are empty. Every declaration of an unresolved path that is not a file id has a
  virtual node with that id, and its edge points at that id. File ids are assumed free
  of the NUL character, which separates the parts of an edge key.
\<close>

theorem one_virtual_node_per_unresolved_path:
  assumes "nulFree files"
  shows "distinct (map n_id (filter n_isVirtual (g_nodes (assembleGraph collate files)))) \<and>
   (\<forall>n \<in> set (g_nodes (assembleGraph collate files)). n_isVirtual n \<longrightarrow>
      n_id n \<notin> set (map pf_id files) \<and>
      (\<exists>d \<in> set (declarations files).
         snd (snd d) = n_id n \<and>
         resolveModuleTarget (snd (snd d)) (buildSuffixIndex files) = None) \<and>
      n_filePath n = ''(unresolved module)'' \<and>
      n_imports n = [] \<and> n_reexports n = [] \<and> n_importTargets n = [] \<and>
      n_reexportTargets n = [] \<and> n_importCount n = 0 \<and> n_reexportCount n = 0 \<and>
      n_exports n = [] \<and> n_exportCount n = 0 \<and> n_symbolUsers n = Map.empty) \<and>
   (\<forall>d \<in> set (declarations files).
      resolveModuleTarget (snd (snd d)) (buildSuffixIndex files) = None \<and>
      snd (snd d) \<notin> set (map pf_id files) \<longrightarrow>
        (\<exists>n \<in> set (g_nodes (assembleGraph collate files)). n_isVirtual n \<and> n_id n = snd (snd d)) \<and>
        (\<exists>e \<in> set (g_edges (assembleGraph collate files)).
           edgeTriple e = (fst (snd d), pf_id (fst d), snd (snd d))))"
proof -
  let ?index = "buildSuffixIndex files"
  have nodes: "n_id n \<notin> set (map pf_id files) \<and>
      (\<exists>d \<in> set (declarations files).
         snd (snd d) = n_id n \<and> resolveModuleTarget (snd (snd d)) ?index = None) \<and>
      n_filePath n = ''(unresolved module)'' \<and>
      n_imports n = [] \<and> n_reexports n = [] \<and> n_importTargets n = [] \<and>
      n_reexportTargets n = [] \<and> n_importCount n = 0 \<and> n_reexportCount n = 0 \<and>
      n_exports n = [] \<and> n_exportCount n = 0 \<and> n_symbolUsers n = Map.empty"
    if n: "n \<in> set (g_nodes (assembleGraph collate files))" and v: "n_isVirtual n" for n
  proof -
    from n v fileNodes_mem[of n collate files] have m: "n \<in> snd ` set (virtualNodesOf files)"
      by (auto simp: node_cases)
    note vm = virtual_mem[OF m]
    from vm(3) virtualNodesOf_props[of files]
    obtain d where d: "d \<in> set (declarations files)" "declTarget ?index d = n_id n"
      by auto
    from resolvedTargetOf_cases[of files "snd (snd d)"] d(2) vm(2)
    have "resolveModuleTarget (snd (snd d)) ?index = None \<and> snd (snd d) = n_id n"
      by (auto simp: declTarget_def)
    with d(1) have ex: "\<exists>d \<in> set (declarations files).
         snd (snd d) = n_id n \<and> resolveModuleTarget (snd (snd d)) ?index = None" by blast
    have fields: "n_filePath n = ''(unresolved module)'' \<and>
      n_imports n = [] \<and> n_reexports n = [] \<and> n_importTargets n = [] \<and>
      n_reexportTargets n = [] \<and> n_importCount n = 0 \<and> n_reexportCount n = 0 \<and>
      n_exports n = [] \<and> n_exportCount n = 0 \<and> n_symbolUsers n = Map.empty"
      by (subst vm(1), simp add: virtualNode_def)+
    from vm(2) ex fields show ?thesis by blast
  qed
  have decls: "(\<exists>n \<in> set (g_nodes (assembleGraph collate files)). n_isVirtual n \<and> n_id n = snd (snd d)) \<and>
        (\<exists>e \<in> set (g_edges (assembleGraph collate files)).
           edgeTriple e = (fst (snd d), pf_id (fst d), snd (snd d)))"
    if d: "d \<in> set (declarations files)"
      and u: "resolveModuleTarget (snd (snd d)) ?index = None"
      and o: "snd (snd d) \<notin> set (map pf_id files)" for d
  proof -
    note t = declTarget_unresolved[OF u]
    have "\<exists>n \<in> set (g_nodes (assembleGraph collate files)). n_id n = snd (snd d) \<and> n_isVirtual n"
      unfolding virtual_node_iff using d t o by blast
    moreover have "\<exists>e \<in> set (g_edges (assembleGraph collate files)).
           edgeTriple e = (fst (snd d), pf_id (fst d), snd (snd d))"
      using edge_of_declaration[OF assms d] unfolding declTriple_parts t .
    ultimately show ?thesis by blast
  qed
  from virtual_ids_distinct[of collate files] nodes decls show ?thesis by blast
qed

theorem one_virtual_node_per_unresolved_path_witness:
  "nulFree unresolvedImport \<and>
   (parsedFile ''app.ext'' [''missing/mod.ext''] [] [] [], Import, ''missing/mod.ext'')
     \<in> set (declarations unresolvedImport) \<and>
   resolveModuleTarget ''missing/mod.ext'' (buildSuffixIndex unresolvedImport) = None \<and>
   ''missing/mod.ext'' \<notin> set (map pf_id unresolvedImport) \<and>
   (\<exists>n \<in> set (g_nodes (assembleGraph localeCompare unresolvedImport)).
      n_isVirtual n \<and> n_id n = ''missing/mod.ext'') \<and>
   (\<exists>e \<in> set (g_edges (assembleGraph localeCompare unresolvedImport)).
      edgeTriple e = (Import, ''app.ext'', ''missing/mod.ext'')) \<and>
   map n_id (filter n_isVirtual (g_nodes (assembleGraph localeCompare unresolvedImport))) = [''missing/mod.ext'']"
proof -
  let ?d = "(parsedFile ''app.ext'' [''missing/mod.ext''] [] [] [], Import, ''missing/mod.ext'')"
  have nf: "nulFree unresolvedImport" by code_simp
  have d: "?d \<in> set (declarations unresolvedImport)"
    by (simp add: declarations_def unresolvedImport_def parsedFile_def)
  have u: "resolveModuleTarget (snd (snd ?d)) (buildSuffixIndex unresolvedImport) = None"
    by code_simp
  have o: "snd (snd ?d) \<notin> set (map pf_id unresolvedImport)"
    by (simp add: unresolvedImport_def parsedFile_def)
  have v: "map n_id (filter n_isVirtual (g_nodes (assembleGraph localeCompare unresolvedImport))) =
             [''missing/mod.ext'']" by code_simp
  from one_virtual_node_per_unresolved_path[OF nf] d u o
  have "(\<exists>n \<in> set (g_nodes (assembleGraph localeCompare unresolvedImport)).
           n_isVirtual n \<and> n_id n = snd (snd ?d)) \<and>
        (\<exists>e \<in> set (g_edges (assembleGraph localeCompare unresolvedImport)).
           edgeTriple e = (fst (snd ?d), pf_id (fst ?d), snd (snd ?d)))"
    by blast
  with nf d u o v show ?thesis by (simp add: parsedFile_def)
qed

text \<open>
  Claim C10, as the code has it. The id of a file is its normalized relative path. The
  node ids of the output are pairwise distinct exactly when the ids of the files are: that
  is so when the relative paths are pairwise distinct and none holds a backslash, a leading
  \<open>./\<close> or two slashes in a row, and it fails for two files whose paths differ only in a
  backslash for a slash, which get one id and two nodes. An unresolved declared path that
  equals the id of an indexed file gets no virtual node: a node with that id is a file's
  node, and the declaration's edge points at that id. Relative paths are assumed free of
  the NUL character.
\<close>

theorem node_ids_pairwise_distinct:
  assumes "parseFiles tree = Inr files" "\<forall>entry \<in> set tree. CHR 0x00 \<notin> set (fst entry)"
  shows "buildGraph collate tree = Inr (assembleGraph collate files) \<and>
   map pf_id files = map (\<lambda>entry. toPosixRelative (fst entry)) tree \<and>
   (distinct (map n_id (g_nodes (assembleGraph collate files))) \<longleftrightarrow>
      distinct (map (\<lambda>entry. toPosixRelative (fst entry)) tree)) \<and>
   (distinct (map fst tree) \<and> (\<forall>entry \<in> set tree. plainPath (fst entry)) \<longrightarrow>
      distinct (map n_id (g_nodes (assembleGraph collate files)))) \<and>
   (\<forall>d \<in> set (declarations files).
      resolveModuleTarget (snd (snd d)) (buildSuffixIndex files) = None \<and>
      snd (snd d) \<in> set (map pf_id files) \<longrightarrow>
        \<not> (\<exists>n \<in> set (g_nodes (assembleGraph collate files)). n_id n = snd (snd d) \<and> n_isVirtual n) \<and>
        (\<exists>n \<in> set (g_nodes (assembleGraph collate files)). n_id n = snd (snd d) \<and> \<not> n_isVirtual n) \<and>
        (\<exists>e \<in> set (g_edges (assembleGraph collate files)).
           edgeTriple e = (fst (snd d), pf_id (fst d), snd (snd d))))"
proof -
  let ?index = "buildSuffixIndex files"
  note nf = nulFree_parsed[OF assms]
  note ids = parseFiles_ids[OF assms(1)]
  have bg: "buildGraph collate tree = Inr (assembleGraph collate files)"
    by (simp add: buildGraph_def assms(1))
  have iff: "distinct (map n_id (g_nodes (assembleGraph collate files))) \<longleftrightarrow>
      distinct (map (\<lambda>entry. toPosixRelative (fst entry)) tree)"
    unfolding node_ids_distinct_iff ids ..
  have plain: "distinct (map n_id (g_nodes (assembleGraph collate files)))"
    if "distinct (map fst tree)" "\<forall>entry \<in> set tree. plainPath (fst entry)"
    unfolding iff using that by (rule plain_ids_distinct)
  have decls: "\<not> (\<exists>n \<in> set (g_nodes (assembleGraph collate files)). n_id n = snd (snd d) \<and> n_isVirtual n) \<and>
        (\<exists>n \<in> set (g_nodes (assembleGraph collate files)). n_id n = snd (snd d) \<and> \<not> n_isVirtual n) \<and>
        (\<exists>e \<in> set (g_edges (assembleGraph collate files)).
           edgeTriple e = (fst (snd d), pf_id (fst d), snd (snd d)))"
    if d: "d \<in> set (declarations files)"
      and u: "resolveModuleTarget (snd (snd d)) ?index = None"
      and o: "snd (snd d) \<in> set (map pf_id files)" for d
  proof -
    note t = declTarget_unresolved[OF u]
    have a: "\<not> (\<exists>n \<in> set (g_nodes (assembleGraph collate files)). n_id n = snd (snd d) \<and> n_isVirtual n)"
      unfolding virtual_node_iff using o by blast
    from o obtain f where "f \<in> set files" "pf_id f = snd (snd d)" by auto
    with file_node_present[of f files collate]
    have b: "\<exists>n \<in> set (g_nodes (assembleGraph collate files)). n_id n = snd (snd d) \<and> \<not> n_isVirtual n"
      by auto
    have c: "\<exists>e \<in> set (g_edges (assembleGraph collate files)).
           edgeTriple e = (fst (snd d), pf_id (fst d), snd (snd d))"
      using edge_of_declaration[OF nf d] unfolding declTriple_parts t .
    from a b c show ?thesis by blast
  qed
  from bg ids iff plain decls show ?thesis by blast
qed

theorem node_ids_pairwise_distinct_witness:
  "list_all (\<lambda>entry. CHR 0x00 \<notin> set (fst entry)) shadowTree \<and>
   distinct (map fst shadowTree) \<and> list_all (\<lambda>entry. plainPath (fst entry)) shadowTree \<and>
   map (\<lambda>f. (pf_id f, pf_imports f)) (parsedOf (parseFiles shadowTree)) =
     [(''a/b/c.fs'', [''b/c.fs'']), (''b/c.fs'', [])] \<and>
   resolveModuleTarget ''b/c.fs'' (buildSuffixIndex (parsedOf (parseFiles shadowTree))) = None \<and>
   nodeIds (buildGraph localeCompare shadowTree) = Inr [''a/b/c.fs'', ''b/c.fs''] \<and>
   edgeTriples (buildGraph localeCompare shadowTree) = Inr [(Import, ''a/b/c.fs'', ''b/c.fs'')] \<and>
   distinct (map n_id (g_nodes (assembleGraph localeCompare (parsedOf (parseFiles shadowTree))))) \<and>
   \<not> (\<exists>n \<in> set (g_nodes (assembleGraph localeCompare (parsedOf (parseFiles shadowTree)))).
        n_id n = ''b/c.fs'' \<and> n_isVirtual n)"
proof -
  let ?files = "parsedOf (parseFiles shadowTree)"
  let ?d = "declarations ?files ! 0"
  obtain fs where "parseFiles shadowTree = Inr fs" using parseFiles_total by blast
  then have p: "parseFiles shadowTree = Inr ?files" by (simp add: parsedOf_def)
  have nul: "list_all (\<lambda>entry. CHR 0x00 \<notin> set (fst entry)) shadowTree" by code_simp
  have di: "distinct (map fst shadowTree)" by code_simp
  have pl: "list_all (\<lambda>entry. plainPath (fst entry)) shadowTree" by code_simp
  have fs: "map (\<lambda>f. (pf_id f, pf_imports f)) ?files =
     [(''a/b/c.fs'', [''b/c.fs'']), (''b/c.fs'', [])]" by code_simp
  have u: "resolveModuleTarget ''b/c.fs'' (buildSuffixIndex ?files) = None" by code_simp
  have ni: "nodeIds (buildGraph localeCompare shadowTree) = Inr [''a/b/c.fs'', ''b/c.fs'']"
    by code_simp
  have et: "edgeTriples (buildGraph localeCompare shadowTree) =
      Inr [(Import, ''a/b/c.fs'', ''b/c.fs'')]" by code_simp
  have len: "length (declarations ?files) = 1" by code_simp
  then have d: "?d \<in> set (declarations ?files)" by simp
  have dp: "snd (snd ?d) = ''b/c.fs''" by code_simp
  have o: "snd (snd ?d) \<in> set (map pf_id ?files)"
    unfolding dp using arg_cong[OF fs, of "map fst"] by (simp add: comp_def)
  note t = node_ids_pairwise_distinct[OF p, of localeCompare]
  from nul have nul': "\<forall>entry \<in> set shadowTree. CHR 0x00 \<notin> set (fst entry)"
    by (simp add: list_all_iff)
  from pl have pl': "\<forall>entry \<in> set shadowTree. plainPath (fst entry)"
    by (simp add: list_all_iff)
  from t[OF nul'] di pl'
  have a: "distinct (map n_id (g_nodes (assembleGraph localeCompare ?files)))" by blast
  have u': "resolveModuleTarget (snd (snd ?d)) (buildSuffixIndex ?files) = None"
    unfolding dp by (rule u)
  from t[OF nul'] d u' o
  have "\<not> (\<exists>n \<in> set (g_nodes (assembleGraph localeCompare ?files)).
              n_id n = snd (snd ?d) \<and> n_isVirtual n)"
    by blast
  then have b: "\<not> (\<exists>n \<in> set (g_nodes (assembleGraph localeCompare ?files)).
              n_id n = ''b/c.fs'' \<and> n_isVirtual n)"
    unfolding dp .
  from nul di pl fs u ni et a b show ?thesis by blast
qed

theorem node_id_collision_counterexample:
  "distinct (map fst collidingTree) \<and>
   list_all (\<lambda>entry. CHR 0x00 \<notin> set (fst entry)) collidingTree \<and>
   nodeIds (buildGraph localeCompare collidingTree) = Inr [''a/b.fs'', ''a/b.fs'']"
  by code_simp

text \<open>
  Claim C5. The edges of the output have pairwise distinct triples (kind, source id,
  resolved target id), and every declaration of every file has exactly one edge with its
  triple: declarations of one kind from one file that resolve to one target share a
  single edge. A path that a file both imports and re-exports gives two edges, one of
  each kind. The version string is not part of a declaration's identity: two imports of
  \<open>x\<close> with different versions parse to the one import \<open>x\<close> and give one edge; an import
  and an \<open>export import\<close> of \<open>x\<close> give one import edge and one re-export edge. File ids
  are assumed free of the NUL character.
\<close>

theorem edges_deduplicated_by_triple:
  assumes "nulFree files"
  shows "distinct (map edgeTriple (g_edges (assembleGraph collate files))) \<and>
   (\<forall>d \<in> set (declarations files).
      length (filter (\<lambda>e. edgeTriple e = declTriple (buildSuffixIndex files) d)
                (g_edges (assembleGraph collate files))) = 1) \<and>
   (\<forall>f \<in> set files. \<forall>p \<in> set (pf_imports f) \<inter> set (pf_reexports f).
      length (filter (\<lambda>e. edgeTriple e =
                (Import, pf_id f, resolvedTargetOf (buildSuffixIndex files) p))
                (g_edges (assembleGraph collate files))) = 1 \<and>
      length (filter (\<lambda>e. edgeTriple e =
                (Reexport, pf_id f, resolvedTargetOf (buildSuffixIndex files) p))
                (g_edges (assembleGraph collate files))) = 1) \<and>
   parseImports twoVersions = Inr ([''x''], []) \<and>
   edgeTriples (buildGraph localeCompare [(''app.fs'', twoVersions)]) = Inr [(Import, ''app.fs'', ''x'')] \<and>
   parseImports importAndExport = Inr ([''x''], [''x'']) \<and>
   edgeTriples (buildGraph localeCompare [(''app.fs'', importAndExport)]) =
     Inr [(Import, ''app.fs'', ''x''), (Reexport, ''app.fs'', ''x'')]"
proof -
  let ?index = "buildSuffixIndex files"
  have both: "length (filter (\<lambda>e. edgeTriple e = (Import, pf_id f, resolvedTargetOf ?index p))
                (g_edges (assembleGraph collate files))) = 1 \<and>
      length (filter (\<lambda>e. edgeTriple e = (Reexport, pf_id f, resolvedTargetOf ?index p))
                (g_edges (assembleGraph collate files))) = 1"
    if f: "f \<in> set files" and p: "p \<in> set (pf_imports f) \<inter> set (pf_reexports f)" for f p
  proof -
    from f p have "(f, Import, p) \<in> set (declarations files)"
      "(f, Reexport, p) \<in> set (declarations files)"
      by (simp_all add: declarations_mem)
    from one_edge_per_declaration[OF assms this(1)] one_edge_per_declaration[OF assms this(2)]
    show ?thesis by (simp add: declTriple_def)
  qed
  from final_edges_triples(1)[OF assms] one_edge_per_declaration[OF assms] both
    twoVersions_parse twoVersions_graph importAndExport_parse importAndExport_graph
  show ?thesis by blast
qed

theorem edges_deduplicated_by_triple_witness:
  "nulFree sameTarget \<and>
   map edgeTriple (g_edges (assembleGraph localeCompare sameTarget)) =
     [(Import, ''app.fs'', ''lib/util.fs''), (Reexport, ''app.fs'', ''lib/util.fs'')] \<and>
   length (filter (\<lambda>e. edgeTriple e = (Import, ''app.fs'', ''lib/util.fs''))
             (g_edges (assembleGraph localeCompare sameTarget))) = 1 \<and>
   length (filter (\<lambda>e. edgeTriple e = (Reexport, ''app.fs'', ''lib/util.fs''))
             (g_edges (assembleGraph localeCompare sameTarget))) = 1"
proof -
  let ?f = "parsedFile ''app.fs'' [''util.fs'', ''lib/util.fs''] [''util.fs''] [] []"
  have nf: "nulFree sameTarget" by code_simp
  have f: "?f \<in> set sameTarget" by (simp add: sameTarget_def)
  have p: "''util.fs'' \<in> set (pf_imports ?f) \<inter> set (pf_reexports ?f)"
    by (simp add: parsedFile_def)
  have r: "resolvedTargetOf (buildSuffixIndex sameTarget) ''util.fs'' = ''lib/util.fs''"
    by code_simp
  have ts: "map edgeTriple (g_edges (assembleGraph localeCompare sameTarget)) =
     [(Import, ''app.fs'', ''lib/util.fs''), (Reexport, ''app.fs'', ''lib/util.fs'')]"
    by code_simp
  have i: "pf_id ?f = ''app.fs''" by (simp add: parsedFile_def)
  from edges_deduplicated_by_triple[OF nf] f p
  have "length (filter (\<lambda>e. edgeTriple e =
                (Import, pf_id ?f, resolvedTargetOf (buildSuffixIndex sameTarget) ''util.fs''))
                (g_edges (assembleGraph localeCompare sameTarget))) = 1 \<and>
      length (filter (\<lambda>e. edgeTriple e =
                (Reexport, pf_id ?f, resolvedTargetOf (buildSuffixIndex sameTarget) ''util.fs''))
                (g_edges (assembleGraph localeCompare sameTarget))) = 1"
    by blast
  with nf ts show ?thesis unfolding r i by simp
qed




text \<open>
  Claim C7. The module path of a file's node is chosen among the observed alternate
  spellings of the file: the chosen spelling has a count at least as high as every other;
  among those with its count it is at least as long; among those with its count and
  length none comes before it in the collation of the runtime. With no observed spelling
  the node keeps the file's own path (which is its id). An observed spelling is a declared
  path that resolved to the file, differs from the file's id and was declared by another
  file; its count is the number of such declarations. The collation is any consistent
  comparator; file ids are assumed pairwise distinct.
\<close>

theorem module_path_chosen_by_tie_break:
  assumes "consistent collate" "distinct (map pf_id files)" "f \<in> set files"
    "n \<in> set (g_nodes (assembleGraph collate files))" "n_id n = pf_id f"
  shows "(observedAliases files (pf_id f) = [] \<longrightarrow> n_modulePath n = pf_filePath f) \<and>
   (observedAliases files (pf_id f) \<noteq> [] \<longrightarrow>
      (\<exists>c. (n_modulePath n, c) \<in> set (observedAliases files (pf_id f)) \<and>
           (\<forall>e \<in> set (observedAliases files (pf_id f)). preferred collate (n_modulePath n, c) e))) \<and>
   (\<forall>p c. (p, c) \<in> set (observedAliases files (pf_id f)) \<longleftrightarrow>
      0 < c \<and>
      c = length (filter (countsAlias (buildSuffixIndex files) (pf_id f) p) (declarations files)))"
proof -
  let ?as = "b_aliasCounts
          (foldl (processFile (buildSuffixIndex files) (set (map pf_id files)))
             emptyBuilder files)"
  have mp: "n_modulePath n = chooseModulePath collate (map_of ?as (pf_id f)) (pf_filePath f)"
    unfolding node_of_file[OF assms(2-5)] fileNode_modulePath ..
  have none: "n_modulePath n = pf_filePath f" if "observedAliases files (pf_id f) = []"
  proof (cases "map_of ?as (pf_id f)")
    case None
    then show ?thesis by (simp add: mp chooseModulePath_none)
  next
    case (Some m)
    with that have "m = []" by (simp add: observedAliases_def aliasesOf_def)
    with Some show ?thesis by (simp add: mp chooseModulePath_empty)
  qed
  have some: "\<exists>c. (n_modulePath n, c) \<in> set (observedAliases files (pf_id f)) \<and>
           (\<forall>e \<in> set (observedAliases files (pf_id f)). preferred collate (n_modulePath n, c) e)"
    if "observedAliases files (pf_id f) \<noteq> []"
  proof -
    from that have m: "map_of ?as (pf_id f) = Some (observedAliases files (pf_id f))"
      by (cases "map_of ?as (pf_id f)") (simp_all add: observedAliases_def aliasesOf_def)
    from chooseModulePath_best[OF that assms(1), of "pf_filePath f"] show ?thesis
      unfolding mp m .
  qed
  from none some observedAliases_entry[of _ _ files "pf_id f"] show ?thesis by blast
qed

theorem module_path_chosen_by_tie_break_witness:
  "consistent localeCompare \<and> distinct (map pf_id aliasTie) \<and>
   parsedFile ''pkg/util.fs'' [] [] [] [] \<in> set aliasTie \<and>
   observedAliases aliasTie ''pkg/util.fs'' =
     [(''util.fs'', 1), (''y/util.fs'', 1), (''x/util.fs'', 1)] \<and>
   map (\<lambda>n. (n_id n, n_modulePath n)) (g_nodes (assembleGraph localeCompare aliasTie)) =
     [(''a.fs'', ''a.fs''), (''b.fs'', ''b.fs''), (''pkg/util.fs'', ''x/util.fs'')] \<and>
   preferred localeCompare (''x/util.fs'', 1) (''util.fs'', 1) \<and>
   preferred localeCompare (''x/util.fs'', 1) (''y/util.fs'', 1) \<and>
   \<not> preferred localeCompare (''y/util.fs'', 1) (''x/util.fs'', 1) \<and>
   observedAliases aliasTie ''a.fs'' = []"
proof -
  let ?f = "parsedFile ''pkg/util.fs'' [] [] [] []"
  let ?a = "parsedFile ''a.fs'' [''util.fs'', ''y/util.fs''] [] [] []"
  let ?n = "g_nodes (assembleGraph localeCompare aliasTie) ! 2"
  let ?na = "g_nodes (assembleGraph localeCompare aliasTie) ! 0"
  let ?obs = "[(''util.fs'', 1 :: nat), (''y/util.fs'', 1), (''x/util.fs'', 1)]"
  note co = localeCompare_consistent
  have di: "distinct (map pf_id aliasTie)" by code_simp
  have f: "?f \<in> set aliasTie" by (simp add: aliasTie_def)
  have a: "?a \<in> set aliasTie" by (simp add: aliasTie_def)
  have oa: "observedAliases aliasTie ''pkg/util.fs'' = ?obs" by code_simp
  have oe: "observedAliases aliasTie ''a.fs'' = []" by code_simp
  have nodes: "map (\<lambda>n. (n_id n, n_modulePath n)) (g_nodes (assembleGraph localeCompare aliasTie)) =
     [(''a.fs'', ''a.fs''), (''b.fs'', ''b.fs''), (''pkg/util.fs'', ''x/util.fs'')]" by code_simp
  have np: "\<not> preferred localeCompare (''y/util.fs'', 1) (''x/util.fs'', 1)" by code_simp
  have len: "length (g_nodes (assembleGraph localeCompare aliasTie)) = 3"
    using arg_cong[OF nodes, of length] by simp
  then have n: "?n \<in> set (g_nodes (assembleGraph localeCompare aliasTie))"
    and na: "?na \<in> set (g_nodes (assembleGraph localeCompare aliasTie))" by simp_all
  have nth: "(n_id ?n, n_modulePath ?n) = (''pkg/util.fs'', ''x/util.fs'')"
    using arg_cong[OF nodes, of "\<lambda>xs. xs ! 2"] len by simp
  have nth0: "(n_id ?na, n_modulePath ?na) = (''a.fs'', ''a.fs'')"
    using arg_cong[OF nodes, of "\<lambda>xs. xs ! 0"] len by simp
  have id: "n_id ?n = pf_id ?f" using nth by (simp add: parsedFile_def)
  have ida: "n_id ?na = pf_id ?a" using nth0 by (simp add: parsedFile_def)
  have pid: "pf_id ?f = ''pkg/util.fs''" "pf_id ?a = ''a.fs''" by (simp_all add: parsedFile_def)
  from module_path_chosen_by_tie_break[OF co di f n id] oa nth
  have "\<exists>c. (''x/util.fs'', c) \<in> set ?obs \<and>
           (\<forall>e \<in> set ?obs. preferred localeCompare (''x/util.fs'', c) e)"
    unfolding pid by simp
  then have p: "preferred localeCompare (''x/util.fs'', 1) (''util.fs'', 1)"
    "preferred localeCompare (''x/util.fs'', 1) (''y/util.fs'', 1)" by auto
  from module_path_chosen_by_tie_break[OF co di a na ida] oe
  have "n_modulePath ?na = pf_filePath ?a" unfolding pid by blast
  from co di f oa nodes p np oe show ?thesis by blast
qed

theorem module_path_collation_counterexample:
  "consistent caseBlind \<and>
   observedAliases caseTie ''pkg/util.fs'' = [(''B/util.fs'', 1), (''a/util.fs'', 1)] \<and>
   length ''B/util.fs'' = length ''a/util.fs'' \<and>
   localeCompare ''B/util.fs'' ''a/util.fs'' < 0 \<and>
   caseBlind ''a/util.fs'' ''B/util.fs'' < 0 \<and>
   map (\<lambda>n. (n_id n, n_modulePath n)) (g_nodes (assembleGraph caseBlind caseTie)) =
     [(''pkg/util.fs'', ''a/util.fs''), (''x.fs'', ''x.fs''), (''y.fs'', ''y.fs'')]"
proof -
  have "observedAliases caseTie ''pkg/util.fs'' = [(''B/util.fs'', 1), (''a/util.fs'', 1)] \<and>
   length ''B/util.fs'' = length ''a/util.fs'' \<and>
   localeCompare ''B/util.fs'' ''a/util.fs'' < 0 \<and>
   caseBlind ''a/util.fs'' ''B/util.fs'' < 0 \<and>
   map (\<lambda>n. (n_id n, n_modulePath n)) (g_nodes (assembleGraph caseBlind caseTie)) =
     [(''pkg/util.fs'', ''a/util.fs''), (''x.fs'', ''x.fs''), (''y.fs'', ''y.fs'')]"
    by code_simp
  with caseBlind_consistent show ?thesis by blast
qed

text \<open>
  Claim C4, as the code has it. The stripped text has as many line breaks, hence as many
  lines, as the source. Every source text is a sequence of well-formed pieces, and the
  stripper returns, piece by piece, what is to be left of each: code and string literals
  unchanged, whatever stands inside the literal; nothing of a line comment; the line
  breaks of a block comment. The import pattern runs over the stripped text with its
  literals in place and knows nothing of them. What holds is this: a source with one
  string literal, beside code and comments, holds no import and no re-export, whatever
  the literal reads like; and in any text, no match of the import pattern lies inside a
  string literal: it does not begin at or after the opening quote and end at or before the
  closing one. A match may begin in one literal and end in another, across the code
  between them.
\<close>

theorem comments_stripped_strings_kept:
  "length (filter (\<lambda>c. c = newline) (stripComments source)) =
     length (filter (\<lambda>c. c = newline) source) \<and>
   (\<exists>ps. wellFormed ps \<and> concat (map render ps) = source) \<and>
   (wellFormed ps \<longrightarrow> stripComments (concat (map render ps)) = concat (map expected ps)) \<and>
   (wellFormed (front @ StringLit body # behind) \<and> (\<forall>p \<in> set (front @ behind). \<not> isStringLit p) \<longrightarrow>
      parseImports (stripComments (concat (map render (front @ StringLit body # behind)))) =
        Inr ([], [])) \<and>
   (stringBody body \<and>
    matchLoop importPattern (startOf (pre @ dquote # body @ dquote # post)) = Some ms \<and>
    m \<in> set ms \<longrightarrow>
      \<not> (length pre \<le> matchStart m \<and> endIndex m \<le> length pre + length body + 2))"
proof -
  have "length (filter (\<lambda>c. c = newline) (stripComments source)) =
     length (filter (\<lambda>c. c = newline) source)"
    unfolding stripComments_def by (rule stripFrom_newlines)
  moreover have "\<exists>ps. wellFormed ps \<and> concat (map render ps) = source"
    by (rule pieces_exist)
  moreover have "wellFormed ps \<longrightarrow>
      stripComments (concat (map render ps)) = concat (map expected ps)"
    unfolding stripComments_def using strip_pieces by blast
  moreover have "wellFormed (front @ StringLit body # behind) \<and>
      (\<forall>p \<in> set (front @ behind). \<not> isStringLit p) \<longrightarrow>
      parseImports (stripComments (concat (map render (front @ StringLit body # behind)))) =
        Inr ([], [])"
    using one_literal_no_import by blast
  moreover have "stringBody body \<and>
    matchLoop importPattern (startOf (pre @ dquote # body @ dquote # post)) = Some ms \<and>
    m \<in> set ms \<longrightarrow>
      \<not> (length pre \<le> matchStart m \<and> endIndex m \<le> length pre + length body + 2)"
    using no_match_in_literal by blast
  ultimately show ?thesis by blast
qed

theorem comments_stripped_strings_kept_witness:
  "wellFormed commentSafety \<and>
   stripComments (concat (map render commentSafety)) =
     ''s = '' @ [dquote] @ importLookalike @ [dquote] @ '';'' @ [newline, newline] @ ''x'' \<and>
   parseImports (stripComments (concat (map render commentSafety))) = Inr ([], []) \<and>
   stringBody importLookalike \<and>
   map (\<lambda>m. (matchStart m, endIndex m))
     (the (matchLoop importPattern
        (startOf (realImport @ dquote # importLookalike @ dquote # '';'')))) = [(0, 30)] \<and>
   \<not> (length realImport \<le> 0 \<and> 30 \<le> length realImport + length importLookalike + 2)"
proof -
  let ?front = "[Code ''s = '']"
  let ?behind = "[Code '';'', LineComment '' note'', Code [newline],
                BlockComment (''one'' @ [newline] @ ''two''), Code ''x'']"
  let ?text = "realImport @ dquote # importLookalike @ dquote # '';''"
  let ?ms = "the (matchLoop importPattern (startOf ?text))"
  have split: "commentSafety = ?front @ StringLit importLookalike # ?behind"
    by (simp add: commentSafety_def)
  have wf: "wellFormed commentSafety" by code_simp
  have one: "\<forall>p \<in> set (?front @ ?behind). \<not> isStringLit p" by simp
  have ex: "concat (map expected commentSafety) =
     ''s = '' @ [dquote] @ importLookalike @ [dquote] @ '';'' @ [newline, newline] @ ''x''"
    by code_simp
  have sb: "stringBody importLookalike" by code_simp
  obtain ms where ms: "matchLoop importPattern (startOf ?text) = Some ms"
    using matchLoop_total[OF importPattern_facts(1)] by blast
  have pos: "map (\<lambda>m. (matchStart m, endIndex m)) ?ms = [(0, 30)]" by code_simp
  with ms obtain m where m: "ms = [m]" "matchStart m = 0" "endIndex m = 30" by auto
  note inst = comments_stripped_strings_kept[of _ commentSafety ?front importLookalike ?behind
      realImport "'';''" ms m]
  from inst wf ex have a: "stripComments (concat (map render commentSafety)) =
     ''s = '' @ [dquote] @ importLookalike @ [dquote] @ '';'' @ [newline, newline] @ ''x''"
    by simp
  from inst wf one have b:
    "parseImports (stripComments (concat (map render commentSafety))) = Inr ([], [])"
    unfolding split by blast
  from inst sb ms m(1) have
    "\<not> (length realImport \<le> matchStart m \<and>
        endIndex m \<le> length realImport + length importLookalike + 2)" by simp
  with m(2,3) have c:
    "\<not> (length realImport \<le> 0 \<and> 30 \<le> length realImport + length importLookalike + 2)"
    by simp
  from wf a b sb pos c show ?thesis by blast
qed

theorem import_across_literals_counterexample:
  "wellFormed spanningLiterals \<and>
   stripComments (concat (map render spanningLiterals)) = concat (map render spanningLiterals) \<and>
   length (render (spanningLiterals ! 0)) = 14 \<and>
   map (\<lambda>m. (matchStart m, endIndex m))
     (the (matchLoop importPattern
        (startOf (stripComments (concat (map render spanningLiterals)))))) = [(1, 35)] \<and>
   parseImports (stripComments (concat (map render spanningLiterals))) = Inr ([''a''], [])"
  by code_simp

end
